theory Spec2Isabelle
  imports Complex_Main "HOL-Library.AList"
begin

section \<open>IRCAdmin: timed mode requests (abbott/plugins/admin.py)\<close>

text \<open>
  The plugin keeps two views of the pending timed requests: the dictionary
  \<open>later_timers\<close>, from \<open>(param, channel, mode)\<close> to a twisted timer, and the list
  \<open>config['laters']\<close> of \<open>(activatetime, param, channel, mode)\<close>, written to the plugin's
  JSON file by \<open>config.save()\<close>. Times are the numbers of \<open>time.time()\<close>, taken here as
  exact reals. The parameter, channel and mode are strings.
\<close>

datatype exc =
    KeyError
  | AlreadyCancelled
  | AlreadyCalled
  | AlreadyCalledError
  | OpFailed string
  | ValueError string
  | NoSuchNick
  | WhoisTimedout
  | UnboundLocalError string
  | OtherError string

type_synonym key = "string \<times> string \<times> string"

type_synonym later = "real \<times> string \<times> string \<times> string"

text \<open>
  A twisted \<open>DelayedCall\<close> made by \<open>reactor.callLater(seconds, do_later)\<close>. The closure
  \<open>do_later\<close> holds the \<open>param\<close>, \<open>channel\<close> and \<open>mode\<close> of the \<open>_set_timer\<close> call that
  made it. A timer object is the index of its call in the reactor's list.
\<close>

datatype call_state = Pending | Cancelled | Called

record delayed_call =
  dc_seconds :: real
  dc_key :: key
  dc_state :: call_state

record admin =
  started :: bool
  later_timers :: "(key \<times> nat) list"
  laters :: "later list"
  config_file :: "later list option"
  defaulttime :: "real option"
  reactor :: "delayed_call list"
  ticks :: nat

text \<open>
  \<open>time.time()\<close>: the clock is a sequence of readings \<open>clk 0, clk 1, ...\<close>; every call
  takes the next one.
\<close>

definition time_time :: "(nat \<Rightarrow> real) \<Rightarrow> admin \<Rightarrow> real \<times> admin" where
  "time_time clk s = (clk (ticks s), s\<lparr>ticks := Suc (ticks s)\<rparr>)"

definition callLater :: "real \<Rightarrow> key \<Rightarrow> delayed_call list \<Rightarrow> nat \<times> delayed_call list" where
  "callLater seconds k r =
     (length r, r @ [\<lparr>dc_seconds = seconds, dc_key = k, dc_state = Pending\<rparr>])"

text \<open>
  \<open>DelayedCall.cancel()\<close> of twisted: a call that was cancelled or has run cannot be
  cancelled, the method raises \<open>AlreadyCancelled\<close> or \<open>AlreadyCalled\<close>. An index the
  reactor never gave out stands for no timer object at all.
\<close>

definition cancel :: "nat \<Rightarrow> delayed_call list \<Rightarrow> exc + delayed_call list" where
  "cancel timer r =
     (if timer < length r then
        (case dc_state (r ! timer) of
           Pending \<Rightarrow> Inr (r[timer := (r ! timer)\<lparr>dc_state := Cancelled\<rparr>])
         | Cancelled \<Rightarrow> Inl AlreadyCancelled
         | Called \<Rightarrow> Inl AlreadyCalled)
      else Inl (OtherError ''not a timer''))"

definition save :: "admin \<Rightarrow> admin" where
  "save s = s\<lparr>config_file := Some (laters s)\<rparr>"

definition key_of :: "later \<Rightarrow> key" where
  "key_of item = (case item of (activatetime, param, channel, mode) \<Rightarrow> (param, channel, mode))"

text \<open>
  The list comprehension of \<open>_set_timer\<close>, \<open>do_later\<close> and \<open>on_event_irc_on_mode_change\<close>:
  \<open>[item for item in laters if not (item[1] == param and item[2] == channel and item[3] == mode)]\<close>.
\<close>

definition without :: "string \<Rightarrow> string \<Rightarrow> string \<Rightarrow> later list \<Rightarrow> later list" where
  "without param channel mode items =
     filter (\<lambda>item. case item of (t, p, c, m) \<Rightarrow> \<not> (p = param \<and> c = channel \<and> m = mode)) items"

definition set_timer ::
  "(nat \<Rightarrow> real) \<Rightarrow> real \<Rightarrow> string \<Rightarrow> string \<Rightarrow> string \<Rightarrow> admin \<Rightarrow> exc + admin" where
  "set_timer clk delay param channel mode s =
     (case (case map_of (later_timers s) (param, channel, mode) of
              None \<Rightarrow> Inr s
            | Some timer \<Rightarrow>
                (case cancel timer (reactor s) of
                   Inl e \<Rightarrow> Inl e
                 | Inr r \<Rightarrow> Inr (s\<lparr>later_timers :=
                                      AList.delete (param, channel, mode) (later_timers s),
                                    reactor := r\<rparr>))) of
        Inl e \<Rightarrow> Inl e
      | Inr s1 \<Rightarrow>
          (let s2 = s1\<lparr>laters := without param channel mode (laters s1)\<rparr>;
               (timer, r) = callLater (max 1 delay) (param, channel, mode) (reactor s2);
               s3 = s2\<lparr>reactor := r,
                       later_timers :=
                         AList.update (param, channel, mode) timer (later_timers s2)\<rparr>;
               (now, s4) = time_time clk s3;
               s5 = s4\<lparr>laters := laters s4 @ [(now + delay, param, channel, mode)]\<rparr>
           in Inr (save s5)))"

record mode_event =
  ev_set :: bool
  ev_mode :: string
  ev_arg :: string
  ev_channel :: string

definition on_event_irc_on_mode_change :: "mode_event \<Rightarrow> admin \<Rightarrow> exc + admin" where
  "on_event_irc_on_mode_change event s =
     (let mode = (if ev_set event = False then ''-'' @ ev_mode event else ''+'' @ ev_mode event);
          user = ev_arg event;
          channel = ev_channel event
      in case map_of (later_timers s) (user, channel, mode) of
           None \<Rightarrow> Inr s
         | Some timer \<Rightarrow>
             (case cancel timer (reactor s) of
                Inl e \<Rightarrow> Inl e
              | Inr r \<Rightarrow>
                  Inr (save (s\<lparr>later_timers := AList.delete (user, channel, mode) (later_timers s),
                               reactor := r,
                               laters := without user channel mode (laters s)\<rparr>))))"

fun cancel_all :: "nat list \<Rightarrow> delayed_call list \<Rightarrow> exc + delayed_call list" where
  "cancel_all [] r = Inr r"
| "cancel_all (timer # timers) r =
     (case cancel timer r of Inl e \<Rightarrow> Inl e | Inr r' \<Rightarrow> cancel_all timers r')"

text \<open>
  The second loop of \<open>_set_all_timers\<close> runs over the list object that
  \<open>config['laters']\<close> names when the loop starts; \<open>_set_timer\<close> binds the name to new
  lists and leaves that object as it is.
\<close>

fun set_each_timer :: "(nat \<Rightarrow> real) \<Rightarrow> later list \<Rightarrow> admin \<Rightarrow> exc + admin" where
  "set_each_timer clk [] s = Inr s"
| "set_each_timer clk ((activatetime, param, channel, mode) # items) s =
     (let (now, s1) = time_time clk s
      in case set_timer clk (activatetime - now) param channel mode s1 of
           Inl e \<Rightarrow> Inl e
         | Inr s2 \<Rightarrow> set_each_timer clk items s2)"

definition set_all_timers :: "(nat \<Rightarrow> real) \<Rightarrow> admin \<Rightarrow> exc + admin" where
  "set_all_timers clk s =
     (case cancel_all (map snd (later_timers s)) (reactor s) of
        Inl e \<Rightarrow> Inl e
      | Inr r \<Rightarrow> set_each_timer clk (laters s) (s\<lparr>reactor := r\<rparr>))"

text \<open>
  \<open>reload\<close>: the base class reads the plugin's JSON file again; a file without
  \<open>"laters"\<close> gets the empty list. The timers are set only when \<open>started\<close> is true.
\<close>

definition reload :: "(nat \<Rightarrow> real) \<Rightarrow> admin \<Rightarrow> exc + admin" where
  "reload clk s =
     (let s1 = s\<lparr>laters := (case config_file s of None \<Rightarrow> [] | Some items \<Rightarrow> items)\<rparr>
      in if started s1 then set_all_timers clk s1 else Inr s1)"

text \<open>
  \<open>__init__\<close>: \<open>started = False\<close>, \<open>later_timers = {}\<close>, then the constructor of
  \<open>BotPlugin\<close> calls \<open>reload()\<close>.
\<close>

definition init :: "(nat \<Rightarrow> real) \<Rightarrow> later list option \<Rightarrow> real option \<Rightarrow> exc + admin" where
  "init clk file dt =
     reload clk \<lparr>started = False, later_timers = [], laters = [], config_file = file,
                 defaulttime = dt, reactor = [], ticks = 0\<rparr>"

definition start :: "(nat \<Rightarrow> real) \<Rightarrow> admin \<Rightarrow> exc + admin" where
  "start clk s = set_all_timers clk (s\<lparr>started := True\<rparr>)"

definition stop :: "admin \<Rightarrow> exc + admin" where
  "stop s =
     (case cancel_all (map snd (later_timers s)) (reactor s) of
        Inl e \<Rightarrow> Inl e
      | Inr r \<Rightarrow> Inr (s\<lparr>reactor := r\<rparr>))"

subsection \<open>The timed request itself: \<open>do_later\<close>\<close>

text \<open>
  What the plugin sends out. \<open>OpRequest name channel target\<close> is
  \<open>issue_request(name, channel=channel, target=target)\<close>, \<open>ModeRequest channel mode param\<close>
  is \<open>issue_request("ircop.mode", channel=channel, mode=mode, param=param)\<close>,
  \<open>KickRequest channel target reason\<close> is the \<open>"ircop.kick"\<close> request,
  \<open>TopicRequest channel topic\<close> is \<open>issue_request("ircop.topic", channel, topic)\<close>, and
  \<open>SendMsg user message\<close> is \<open>send_event(Event("irc.do_msg", user=user, message=message))\<close>.
  The transport is outside the plugin: it is a function that tells, for a request, the
  exception its deferred fails with, \<open>None\<close> when the request succeeds. The text of an
  \<open>OpFailed\<close> or \<open>ValueError\<close> is what \<open>str(e)\<close> gives.
\<close>

datatype request =
    OpRequest string string string
  | ModeRequest string string string
  | KickRequest string string string
  | TopicRequest string string

datatype action =
    Issue request
  | SendMsg string string
  | Reply string

type_synonym transport = "request \<Rightarrow> exc option"

definition mode_names :: "(string \<times> string) list" where
  "mode_names =
     [(''+b'', ''ban''), (''+q'', ''quiet''), (''+o'', ''op''), (''-o'', ''deop''),
      (''+v'', ''voice''), (''-v'', ''devoice''), (''-b'', ''unban''), (''-q'', ''unquiet'')]"

definition about_to :: "string \<Rightarrow> string \<Rightarrow> string \<Rightarrow> string" where
  "about_to mode param e = ''I was about to do a '' @ mode @ '' '' @ param @ '', but '' @ e"

text \<open>
  \<open>do_later\<close> returns the state it leaves, what it sent, and the exception that leaves
  it, if any. \<open>del self.later_timers[...]\<close> raises \<open>KeyError\<close> on a missing key, before
  anything is changed. A \<open>KeyError\<close> of the dictionary lookup or of the specific
  request leads to the generic request; \<open>OpFailed\<close> and \<open>ValueError\<close> of either
  request lead to the message.
\<close>

definition do_later :: "transport \<Rightarrow> key \<Rightarrow> admin \<Rightarrow> admin \<times> action list \<times> exc option" where
  "do_later tr k s =
     (case k of (param, channel, mode) \<Rightarrow>
        (case map_of (later_timers s) (param, channel, mode) of
           None \<Rightarrow> (s, [], Some KeyError)
         | Some _ \<Rightarrow>
             (let s1 = save (s\<lparr>later_timers :=
                                 AList.delete (param, channel, mode) (later_timers s),
                               laters := without param channel mode (laters s)\<rparr>);
                  generic = ModeRequest channel mode param;
                  (issued, failure) =
                    (case map_of mode_names mode of
                       None \<Rightarrow> ([generic], tr generic)
                     | Some name \<Rightarrow>
                         (let specific = OpRequest (''ircop.'' @ name) channel param
                          in if tr specific = Some KeyError
                             then ([specific, generic], tr generic)
                             else ([specific], tr specific)))
              in case failure of
                   Some (OpFailed e) \<Rightarrow>
                     (s1, map Issue issued @ [SendMsg channel (about_to mode param e)], None)
                 | Some (ValueError e) \<Rightarrow>
                     (s1, map Issue issued @ [SendMsg channel (about_to mode param e)], None)
                 | _ \<Rightarrow> (s1, map Issue issued, failure))))"

text \<open>
  The reactor runs a call that is still pending: it marks the call as called and then
  calls \<open>do_later\<close>. A call that was cancelled or has run is not run.
\<close>

definition fire :: "transport \<Rightarrow> nat \<Rightarrow> admin \<Rightarrow> admin \<times> action list \<times> exc option" where
  "fire tr timer s =
     (if timer < length (reactor s) \<and> dc_state (reactor s ! timer) = Pending
      then do_later tr (dc_key (reactor s ! timer))
             (s\<lparr>reactor := (reactor s)[timer := (reactor s ! timer)\<lparr>dc_state := Called\<rparr>]\<rparr>)
      else (s, [], None))"

text \<open>
  Sequences of operations on a started plugin. An exception that leaves \<open>do_later\<close> is
  logged by the reactor, and the plugin goes on in the state \<open>do_later\<close> left.
\<close>

datatype operation =
    Schedule real string string string
  | Invalidate mode_event
  | Fire nat

fun step :: "transport \<Rightarrow> (nat \<Rightarrow> real) \<Rightarrow> operation \<Rightarrow> admin \<Rightarrow> exc + admin" where
  "step tr clk (Schedule delay param channel mode) s = set_timer clk delay param channel mode s"
| "step tr clk (Invalidate event) s = on_event_irc_on_mode_change event s"
| "step tr clk (Fire timer) s = Inr (fst (fire tr timer s))"

fun run :: "transport \<Rightarrow> (nat \<Rightarrow> real) \<Rightarrow> operation list \<Rightarrow> admin \<Rightarrow> exc + admin" where
  "run tr clk [] s = Inr s"
| "run tr clk (x # xs) s =
     (case step tr clk x s of Inl e \<Rightarrow> Inl e | Inr s' \<Rightarrow> run tr clk xs s')"

subsection \<open>Well-formed timer tables\<close>

text \<open>
  Every timer of \<open>later_timers\<close> is a pending call that runs \<open>do_later\<close> for the key
  it is filed under, no key is filed twice, and every pending call is filed.
\<close>

definition table_ok :: "(key \<times> nat) list \<Rightarrow> delayed_call list \<Rightarrow> bool" where
  "table_ok timers r \<longleftrightarrow>
     distinct (map fst timers) \<and>
     (\<forall>(k, timer) \<in> set timers.
        timer < length r \<and> dc_state (r ! timer) = Pending \<and> dc_key (r ! timer) = k) \<and>
     (\<forall>timer < length r.
        dc_state (r ! timer) = Pending \<longrightarrow> (dc_key (r ! timer), timer) \<in> set timers)"

definition timers_ok :: "admin \<Rightarrow> bool" where
  "timers_ok s \<longleftrightarrow> table_ok (later_timers s) (reactor s)"

definition timer_keys :: "admin \<Rightarrow> key set" where
  "timer_keys s = fst ` set (later_timers s)"

definition later_keys :: "admin \<Rightarrow> key set" where
  "later_keys s = key_of ` set (laters s)"

definition consistent :: "admin \<Rightarrow> bool" where
  "consistent s \<longleftrightarrow> timers_ok s \<and> timer_keys s = later_keys s"

text \<open>The pending calls of the reactor that run \<open>do_later\<close> for a key.\<close>

definition pending_for :: "key \<Rightarrow> admin \<Rightarrow> nat list" where
  "pending_for k s =
     filter (\<lambda>timer. dc_state (reactor s ! timer) = Pending \<and> dc_key (reactor s ! timer) = k)
       [0..<length (reactor s)]"

definition entries_for :: "key \<Rightarrow> admin \<Rightarrow> later list" where
  "entries_for k s = filter (\<lambda>item. key_of item = k) (laters s)"

text \<open>
  \<open>pop_timer\<close> is the reactor after \<open>later_timers.pop(k)\<close> and \<open>timer.cancel()\<close> on a
  pending timer, or as it was when the key is not filed.
\<close>

definition pop_timer :: "key \<Rightarrow> (key \<times> nat) list \<Rightarrow> delayed_call list \<Rightarrow> delayed_call list" where
  "pop_timer k timers r =
     (case map_of timers k of
        None \<Rightarrow> r
      | Some timer \<Rightarrow> r[timer := (r ! timer)\<lparr>dc_state := Cancelled\<rparr>])"

section \<open>IRCTopic: the topic of a channel (abbott/plugins/admin.py)\<close>

text \<open>
  \<open>topic_stack\<close> is a \<open>defaultdict\<close> of \<open>deque(maxlen=10)\<close>, the current topic last;
  \<open>topic_waiters\<close> is a \<open>defaultdict\<close> of sets of deferreds. A missing key and an empty
  value are the same to every reader, so both are total functions of the channel. A
  deferred is the index of its state in \<open>deferreds\<close>; the waiters of a channel are kept
  in the order they were added, which no result below depends on. \<open>d_cancels\<close> is the
  timeout call that the deferred's \<open>success\<close> callback cancels, for the one waiter that
  was given that callback. \<open>timeouts\<close> are the calls \<open>reactor.callLater(10, failure)\<close>,
  each with the channel of its \<open>failure\<close> closure, and \<open>topic_requests\<close> are the channels
  of the \<open>irc.do_topic\<close> events sent so far.
\<close>

datatype deferred_state = Waiting | Fired string | Broken exc

record deferred =
  d_state :: deferred_state
  d_cancels :: "nat option"

record topic_plugin =
  topic_stack :: "string \<Rightarrow> string list"
  topic_waiters :: "string \<Rightarrow> nat list"
  deferreds :: "deferred list"
  timeouts :: "(string \<times> call_state) list"
  topic_requests :: "string list"

definition topic_start :: topic_plugin where
  "topic_start = \<lparr>topic_stack = (\<lambda>channel. []), topic_waiters = (\<lambda>channel. []),
                  deferreds = [], timeouts = [], topic_requests = []\<rparr>"

text \<open>\<open>deque(maxlen=10).append\<close>: a full deque drops its oldest element.\<close>

definition deque_append :: "string list \<Rightarrow> string \<Rightarrow> string list" where
  "deque_append stack x = (if length stack < 10 then stack else tl stack) @ [x]"

text \<open>
  \<open>d.callback(newtopic)\<close>: a deferred that was called before raises
  \<open>AlreadyCalledError\<close>. Otherwise the callbacks run with \<open>newtopic\<close>; the \<open>success\<close>
  callback calls \<open>c.cancel()\<close>, and an exception of a callback stays inside the
  deferred, as the failure handed to the callbacks after it.
\<close>

definition callback ::
  "string \<Rightarrow> nat \<Rightarrow> deferred list \<times> (string \<times> call_state) list \<Rightarrow>
   exc + deferred list \<times> (string \<times> call_state) list" where
  "callback newtopic d st =
     (case st of (ds, cs) \<Rightarrow>
        if d < length ds \<and> d_state (ds ! d) = Waiting then
          (case d_cancels (ds ! d) of
             None \<Rightarrow> Inr (ds[d := (ds ! d)\<lparr>d_state := Fired newtopic\<rparr>], cs)
           | Some c \<Rightarrow>
               if c < length cs \<and> snd (cs ! c) = Pending
               then Inr (ds[d := (ds ! d)\<lparr>d_state := Fired newtopic\<rparr>],
                         cs[c := (fst (cs ! c), Cancelled)])
               else Inr (ds[d := (ds ! d)\<lparr>d_state :=
                           Broken (if c < length cs \<and> snd (cs ! c) = Cancelled
                                   then AlreadyCancelled else AlreadyCalled)\<rparr>], cs))
        else Inl AlreadyCalledError)"

fun callback_each ::
  "string \<Rightarrow> nat list \<Rightarrow> deferred list \<times> (string \<times> call_state) list \<Rightarrow>
   exc + deferred list \<times> (string \<times> call_state) list" where
  "callback_each newtopic [] st = Inr st"
| "callback_each newtopic (d # waiting) st =
     (case callback newtopic d st of
        Inl e \<Rightarrow> Inl e
      | Inr st' \<Rightarrow> callback_each newtopic waiting st')"

record topic_event =
  te_channel :: string
  te_newtopic :: string

text \<open>
  \<open>oldtopic\<close> stays \<open>None\<close> on an empty deque, and \<open>None\<close> differs from every topic.
\<close>

definition on_event_irc_on_topic_updated :: "topic_event \<Rightarrow> topic_plugin \<Rightarrow> exc + topic_plugin" where
  "on_event_irc_on_topic_updated event s =
     (let channel = te_channel event;
          newtopic = te_newtopic event;
          stack = topic_stack s channel;
          s1 = (if stack = [] \<or> newtopic \<noteq> last stack
                then s\<lparr>topic_stack := (topic_stack s)(channel := deque_append stack newtopic)\<rparr>
                else s);
          waiting = topic_waiters s1 channel;
          s2 = s1\<lparr>topic_waiters := (topic_waiters s1)(channel := [])\<rparr>
      in case callback_each newtopic waiting (deferreds s2, timeouts s2) of
           Inl e \<Rightarrow> Inl e
         | Inr (ds, cs) \<Rightarrow> Inr (s2\<lparr>deferreds := ds, timeouts := cs\<rparr>))"

text \<open>
  \<open>_get_current_topic\<close> returns \<open>defer.succeed(topic_stack[-1])\<close> or a new deferred.
\<close>

datatype topic_answer = Known string | Asked nat

definition get_current_topic :: "string \<Rightarrow> topic_plugin \<Rightarrow> topic_answer \<times> topic_plugin" where
  "get_current_topic channel s =
     (if topic_stack s channel \<noteq> [] then (Known (last (topic_stack s channel)), s)
      else
        (let s1 = s\<lparr>topic_requests := topic_requests s @ [channel]\<rparr>;
             waiting = topic_waiters s1 channel;
             new_d = length (deferreds s1);
             (cb, s2) = (if waiting = []
                         then (Some (length (timeouts s1)),
                               s1\<lparr>timeouts := timeouts s1 @ [(channel, Pending)]\<rparr>)
                         else (None, s1));
             s3 = s2\<lparr>deferreds := deferreds s2 @ [\<lparr>d_state = Waiting, d_cancels = cb\<rparr>],
                     topic_waiters := (topic_waiters s2)(channel := waiting @ [new_d])\<rparr>
         in (Asked new_d, s3)))"

text \<open>
  The waiters of a channel are well-formed when they are different deferreds that were
  not called yet, and the timeout that a waiter's \<open>success\<close> callback cancels is
  pending and belongs to that waiter alone.
\<close>

definition waiting_ok :: "nat list \<Rightarrow> deferred list \<Rightarrow> (string \<times> call_state) list \<Rightarrow> bool" where
  "waiting_ok waiting ds cs \<longleftrightarrow>
     distinct waiting \<and>
     (\<forall>d \<in> set waiting.
        d < length ds \<and> d_state (ds ! d) = Waiting \<and>
        (\<forall>c. d_cancels (ds ! d) = Some c \<longrightarrow>
           c < length cs \<and> snd (cs ! c) = Pending \<and>
           (\<forall>d' \<in> set waiting. d_cancels (ds ! d') = Some c \<longrightarrow> d' = d)))"

text \<open>
  Sequences of calls of \<open>_get_current_topic\<close> and of topic events, and the
  well-formedness of all waiters: those of every channel are well-formed, no deferred
  waits for two channels, and no timeout is cancelled by two waiters.
\<close>

datatype topic_operation = Ask string | Updated topic_event

fun topic_step :: "topic_operation \<Rightarrow> topic_plugin \<Rightarrow> exc + topic_plugin" where
  "topic_step (Ask channel) s = Inr (snd (get_current_topic channel s))"
| "topic_step (Updated event) s = on_event_irc_on_topic_updated event s"

fun topic_run :: "topic_operation list \<Rightarrow> topic_plugin \<Rightarrow> exc + topic_plugin" where
  "topic_run [] s = Inr s"
| "topic_run (x # xs) s =
     (case topic_step x s of Inl e \<Rightarrow> Inl e | Inr s' \<Rightarrow> topic_run xs s')"

definition topic_ok :: "topic_plugin \<Rightarrow> bool" where
  "topic_ok s \<longleftrightarrow>
     (\<forall>channel. waiting_ok (topic_waiters s channel) (deferreds s) (timeouts s)) \<and>
     (\<forall>channel channel' d.
        d \<in> set (topic_waiters s channel) \<and> d \<in> set (topic_waiters s channel') \<longrightarrow>
        channel = channel') \<and>
     (\<forall>channel channel' d d' c.
        d \<in> set (topic_waiters s channel) \<and> d' \<in> set (topic_waiters s channel') \<and>
        d_cancels (deferreds s ! d) = Some c \<and> d_cancels (deferreds s ! d') = Some c \<longrightarrow>
        d = d')"

subsection \<open>Editing the topic\<close>

text \<open>
  \<open>str.split(sep)\<close> for a one-character separator, \<open>str.strip()\<close> for the ASCII white
  space, \<open>" | ".join\<close>, and \<open>"%s" % n\<close> for a length.
\<close>

fun split_on :: "char \<Rightarrow> string \<Rightarrow> string list" where
  "split_on sep [] = [[]]"
| "split_on sep (c # cs) =
     (if c = sep then [] # split_on sep cs
      else (case split_on sep cs of
              [] \<Rightarrow> [[c]]
            | part # parts \<Rightarrow> (c # part) # parts))"

definition is_space :: "char \<Rightarrow> bool" where
  "is_space c \<longleftrightarrow> c \<in> set [CHR '' '', CHR 0x09, CHR 0x0A, CHR 0x0B, CHR 0x0C, CHR 0x0D]"

definition strip :: "string \<Rightarrow> string" where
  "strip s = rev (dropWhile is_space (rev (dropWhile is_space s)))"

fun join_bar :: "string list \<Rightarrow> string" where
  "join_bar [] = []"
| "join_bar [part] = part"
| "join_bar (part # part' # parts) = part @ '' | '' @ join_bar (part' # parts)"

fun str_of_nat :: "nat \<Rightarrow> string" where
  "str_of_nat n =
     (if n < 10 then [char_of (48 + n)]
      else str_of_nat (n div 10) @ [char_of (48 + n mod 10)])"

declare str_of_nat.simps [simp del]

text \<open>
  Python list indexing: a negative index counts from the end; \<open>list.insert\<close> clamps the
  position to the list and never raises; item assignment and \<open>del\<close> raise \<open>IndexError\<close>
  outside \<open>-n .. n-1\<close>.
\<close>

definition py_index :: "nat \<Rightarrow> int \<Rightarrow> nat option" where
  "py_index n pos =
     (if 0 \<le> pos \<and> pos < int n then Some (nat pos)
      else if - int n \<le> pos \<and> pos < 0 then Some (nat (int n + pos))
      else None)"

definition list_insert :: "int \<Rightarrow> 'a \<Rightarrow> 'a list \<Rightarrow> 'a list" where
  "list_insert pos x xs =
     (let n = int (length xs);
          i = (if pos < 0 then max 0 (pos + n) else min pos n)
      in take (nat i) xs @ [x] @ drop (nat i) xs)"

definition list_delete :: "nat \<Rightarrow> 'a list \<Rightarrow> 'a list" where
  "list_delete i xs = take i xs @ drop (Suc i) xs"

text \<open>
  \<open>_set_topic\<close>: the request is made; an \<open>OpFailed\<close> raised by the call itself is
  answered with a reply. \<open>tr\<close> tells the exception of the call, if any.
\<close>

definition set_topic :: "transport \<Rightarrow> string \<Rightarrow> string \<Rightarrow> action list" where
  "set_topic tr channel topic =
     (case tr (TopicRequest channel topic) of
        Some (OpFailed e) \<Rightarrow>
          [Issue (TopicRequest channel topic),
           Reply (''Channel is +t and I can't acquire op! Reason: '' @ e)]
      | _ \<Rightarrow> [Issue (TopicRequest channel topic)])"

definition only_parts :: "nat \<Rightarrow> string" where
  "only_parts n =
     ''There are only '' @ str_of_nat n @ '' topic parts. Remember indexes start at 0''"

text \<open>
  The \<open>callback\<close> functions of \<open>topicinsert\<close>, \<open>topicreplace\<close> and \<open>topicremove\<close>, run
  with the current topic; \<open>pos\<close> is \<open>int(gd['pos'])\<close> of the pattern \<open>-?\d+\<close>.
\<close>

definition topicinsert :: "transport \<Rightarrow> string \<Rightarrow> int \<Rightarrow> string \<Rightarrow> string \<Rightarrow> action list" where
  "topicinsert tr channel pos text currenttopic =
     (let topic_parts = map strip (split_on CHR ''|'' currenttopic);
          topic_parts = list_insert pos text topic_parts;
          newtopic = join_bar topic_parts
      in set_topic tr channel newtopic)"

definition topicreplace :: "transport \<Rightarrow> string \<Rightarrow> int \<Rightarrow> string \<Rightarrow> string \<Rightarrow> action list" where
  "topicreplace tr channel pos text currenttopic =
     (let topic_parts = map strip (split_on CHR ''|'' currenttopic)
      in case py_index (length topic_parts) pos of
           None \<Rightarrow> [Reply (only_parts (length topic_parts))]
         | Some i \<Rightarrow> set_topic tr channel (join_bar (topic_parts[i := text])))"

definition topicremove :: "transport \<Rightarrow> string \<Rightarrow> int \<Rightarrow> string \<Rightarrow> action list" where
  "topicremove tr channel pos currenttopic =
     (let topic_parts = map strip (split_on CHR ''|'' currenttopic)
      in case py_index (length topic_parts) pos of
           None \<Rightarrow> [Reply (only_parts (length topic_parts))]
         | Some i \<Rightarrow> set_topic tr channel (join_bar (list_delete i topic_parts)))"

section \<open>IRCAdmin: hostmasks, ban and quiet (abbott/plugins/admin.py)\<close>

definition startswith :: "string \<Rightarrow> string \<Rightarrow> bool" where
  "startswith s p \<longleftrightarrow> take (length p) s = p"

text \<open>
  \<open>_nick_to_hostmask\<close>. The whois request is outside the plugin: \<open>whois nick\<close> is the
  exception the request fails with, or the first three fields of \<open>RPL_WHOISUSER\<close>,
  the nick, the user name and the host.
\<close>

type_synonym whois = "string \<Rightarrow> exc + string \<times> string \<times> string"

definition nick_to_hostmask :: "whois \<Rightarrow> string \<Rightarrow> exc + string" where
  "nick_to_hostmask who nick =
     (if (CHR ''!'' \<in> set nick \<and> CHR ''@'' \<in> set nick) \<or> startswith nick ''$'' then Inr nick
      else
        (case who nick of
           Inl e \<Rightarrow> Inl e
         | Inr (nick0, username0, host0) \<Rightarrow>
             (let (nick, username, host) =
                    (if startswith host0 ''gateway/web/freenode/ip.''
                     then (''*'', ''*'', drop 3 (last (split_on CHR ''/'' host0)))
                     else if startswith host0 ''gateway/''
                     then (''*'', username0, ''gateway/*'')
                     else (''*'', ''*'', host0))
              in Inr (nick @ ''!'' @ username @ ''@'' @ host))))"

subsection \<open>The commands \<open>quiet\<close> and \<open>ban\<close>\<close>

text \<open>
  \<open>parse_time\<close>: the calendar parser is outside the plugin; \<open>cal timestr\<close> is \<open>None\<close>
  when its status is 0 and otherwise the time stamp \<open>time.mktime(result)\<close>.
\<close>

type_synonym calendar = "string \<Rightarrow> real option"

definition parse_time :: "calendar \<Rightarrow> (nat \<Rightarrow> real) \<Rightarrow> string \<Rightarrow> admin \<Rightarrow> exc + real \<times> admin" where
  "parse_time cal clk timestr s =
     (case cal timestr of
        None \<Rightarrow> Inl (ValueError ''I don't understand when you want me to do that'')
      | Some timestamp \<Rightarrow>
          (let (now, s') = time_time clk s in Inr (max 1 (timestamp - now), s')))"

text \<open>
  \<open>duration\<close> is \<open>None\<close>, the text of the command or a number, and only its truth value
  is looked at before it is a number: \<open>None\<close>, the empty text and 0 count as false and
  are all \<open>None\<close> here.
\<close>

definition truthy :: "real option \<Rightarrow> bool" where
  "truthy duration \<longleftrightarrow> (case duration of None \<Rightarrow> False | Some d \<Rightarrow> d \<noteq> 0)"

definition or_defaulttime :: "real option \<Rightarrow> admin \<Rightarrow> real option" where
  "or_defaulttime duration s =
     (if \<not> truthy duration \<and> truthy (defaulttime s) then defaulttime s else duration)"

text \<open>
  \<open>_do_moderequest\<close> and the commands return what they sent, the exception that leaves
  them, if any, and the state. The timer is set by a callback of the request, so only
  when the request succeeds; an exception of the callback is the failure of the
  deferred that the command waits for.
\<close>

definition do_moderequest ::
  "transport \<Rightarrow> (nat \<Rightarrow> real) \<Rightarrow> string \<Rightarrow> string \<Rightarrow> string \<Rightarrow> real option \<Rightarrow> admin \<Rightarrow>
   action list \<times> exc option \<times> admin" where
  "do_moderequest tr clk channel mode hostmask duration s =
     (case map_of [(''b'', ''ban''), (''q'', ''quiet'')] mode of
        None \<Rightarrow> ([], Some KeyError, s)
      | Some name \<Rightarrow>
          (let req = OpRequest (''ircop.'' @ name) channel hostmask
           in case tr req of
                Some e \<Rightarrow> ([Issue req], Some e, s)
              | None \<Rightarrow>
                  (case duration of
                     None \<Rightarrow> ([Issue req], None, s)
                   | Some d \<Rightarrow>
                       if d = 0 then ([Issue req], None, s)
                       else (case set_timer clk d hostmask channel (''-'' @ mode) s of
                               Inl e \<Rightarrow> ([Issue req], Some e, s)
                             | Inr s' \<Rightarrow> ([Issue req], None, s')))))"

definition no_such_nick :: "string \<Rightarrow> string \<Rightarrow> string" where
  "no_such_nick verb target =
     ''There is no user by that nick on the network. Try '' @ target @ ''!*@* to '' @ verb
     @ '' anyone with that nick, or specify a full hostmask.''"

definition quiet ::
  "calendar \<Rightarrow> whois \<Rightarrow> transport \<Rightarrow> (nat \<Rightarrow> real) \<Rightarrow> string \<Rightarrow> string \<Rightarrow> string option \<Rightarrow> admin \<Rightarrow>
   action list \<times> exc option \<times> admin" where
  "quiet cal who tr clk channel target timestr s =
     (case (case timestr of
              None \<Rightarrow> Inr (None, s)
            | Some t \<Rightarrow>
                if t = [] then Inr (None, s)
                else (case parse_time cal clk t s of
                        Inl e \<Rightarrow> Inl e
                      | Inr (d, s') \<Rightarrow> Inr (Some d, s'))) of
        Inl (ValueError e) \<Rightarrow> ([Reply e], None, s)
      | Inl e \<Rightarrow> ([], Some e, s)
      | Inr (duration, s1) \<Rightarrow>
          (let duration = or_defaulttime duration s1
           in case nick_to_hostmask who target of
                Inl NoSuchNick \<Rightarrow> ([Reply (no_such_nick ''quiet'' target)], None, s1)
              | Inl e \<Rightarrow> ([], Some e, s1)
              | Inr hostmask \<Rightarrow>
                  (case do_moderequest tr clk channel ''q'' hostmask duration s1 of
                     (sent, Some (OpFailed e), s2) \<Rightarrow> (sent @ [Reply e], None, s2)
                   | (sent, raised, s2) \<Rightarrow> (sent, raised, s2))))"

text \<open>
  \<open>ban\<close>. In the last branch of the target test neither \<open>hostmask\<close> nor \<open>nick\<close> is
  bound, and \<open>kick_d\<close> is bound only when \<open>do_kick\<close> is true; reading an unbound local
  name raises \<open>UnboundLocalError\<close>.
\<close>

definition ban ::
  "calendar \<Rightarrow> whois \<Rightarrow> transport \<Rightarrow> (nat \<Rightarrow> real) \<Rightarrow> string \<Rightarrow> string \<Rightarrow> string \<Rightarrow>
   string option \<Rightarrow> admin \<Rightarrow> action list \<times> exc option \<times> admin" where
  "ban cal who tr clk user channel target timestr s =
     (let reason = ''Banned by '' @ hd (split_on CHR ''!'' user);
          (reason, duration, s1) =
            (case timestr of
               None \<Rightarrow> (reason, None, s)
             | Some t \<Rightarrow>
                 if t = [] then (reason, None, s)
                 else (case parse_time cal clk t s of
                         Inl e \<Rightarrow> (t, None, s)
                       | Inr (d, s') \<Rightarrow> (reason, Some d, s')));
          duration = or_defaulttime duration s1;
          target_test =
            (if CHR ''@'' \<in> set target \<and> CHR ''!'' \<in> set target \<and> CHR ''$'' \<notin> set target
             then Inr (Inr (hd (split_on CHR ''!'' target), target,
                            CHR ''*'' \<notin> set (hd (split_on CHR ''!'' target))))
             else if CHR ''@'' \<notin> set target \<and> CHR ''!'' \<notin> set target \<and> CHR ''$'' \<notin> set target
             then (case nick_to_hostmask who target of
                     Inl NoSuchNick \<Rightarrow> Inr (Inl (no_such_nick ''ban'' target))
                   | Inl WhoisTimedout \<Rightarrow>
                       Inr (Inl (''That's odd, the whois I did on '' @ target
                                 @ '' didn't work. Sorry.''))
                   | Inl e \<Rightarrow> Inl e
                   | Inr hostmask \<Rightarrow> Inr (Inr (target, hostmask, True)))
             else Inl (UnboundLocalError ''hostmask''))
      in case target_test of
           Inl e \<Rightarrow> ([], Some e, s1)
         | Inr (Inl answer) \<Rightarrow> ([Reply answer], None, s1)
         | Inr (Inr (nick, hostmask, do_kick)) \<Rightarrow>
             (case do_moderequest tr clk channel ''b'' hostmask duration s1 of
                (sent_ban, ban_d, s2) \<Rightarrow>
                  (let kick = KickRequest channel nick reason;
                       sent = (if do_kick then sent_ban @ [Issue kick] else sent_ban)
                   in case ban_d of
                        Some (OpFailed e) \<Rightarrow> (sent @ [Reply e], None, s2)
                      | Some e \<Rightarrow> (sent, Some e, s2)
                      | None \<Rightarrow>
                          if do_kick
                          then (case tr kick of
                                  Some (OpFailed e) \<Rightarrow> (sent @ [Reply e], None, s2)
                                | Some e \<Rightarrow> (sent, Some e, s2)
                                | None \<Rightarrow> (sent, None, s2))
                          else (sent, Some (UnboundLocalError ''kick_d''), s2))))"

section \<open>Surroundings used in the examples\<close>

text \<open>
  A clock that starts at 100 and advances by one second with every reading, a transport
  that accepts every request, a calendar that understands no text, and a whois that
  knows the user \<open>bobby\<close> on the host \<open>unaffiliated/bob\<close>.
\<close>

definition example_clock :: "nat \<Rightarrow> real" where
  "example_clock n = 100 + real n"

definition accepting :: transport where
  "accepting rq = None"

definition no_calendar :: calendar where
  "no_calendar timestr = None"

definition whois_bob :: whois where
  "whois_bob nick = Inr (''bob'', ''bobby'', ''unaffiliated/bob'')"

section \<open>Properties of the timed requests\<close>

subsection \<open>The timer table stays well-formed\<close>

lemma cancel_pending:
  "timer < length r \<Longrightarrow> dc_state (r ! timer) = Pending \<Longrightarrow>
   cancel timer r = Inr (r[timer := (r ! timer)\<lparr>dc_state := Cancelled\<rparr>])"
  by (simp add: cancel_def)

lemma update_fresh: "k \<notin> fst ` set al \<Longrightarrow> AList.update k v al = al @ [(k, v)]"
  by (induction al) auto

lemma table_ok_lookup:
  "table_ok al r \<Longrightarrow> map_of al k = Some timer \<Longrightarrow>
   timer < length r \<and> dc_state (r ! timer) = Pending \<and> dc_key (r ! timer) = k"
  by (auto simp: table_ok_def dest!: map_of_SomeD)

lemma table_ok_filed:
  "table_ok al r \<Longrightarrow> timer < length r \<Longrightarrow> dc_state (r ! timer) = Pending \<Longrightarrow>
   map_of al (dc_key (r ! timer)) = Some timer"
  by (auto simp: table_ok_def)

lemma set_delete: "set (AList.delete k al) = {p \<in> set al. fst p \<noteq> k}"
  by (auto simp: AList.delete_eq)

lemma table_ok_retire:
  assumes ok: "table_ok al r" and look: "map_of al k = Some timer" and st: "st \<noteq> Pending"
  shows "table_ok (AList.delete k al) (r[timer := (r ! timer)\<lparr>dc_state := st\<rparr>])"
proof -
  from table_ok_lookup[OF ok look]
  have t: "timer < length r" "dc_state (r ! timer) = Pending" "dc_key (r ! timer) = k"
    by auto
  have d: "distinct (map fst al)" using ok by (simp add: table_ok_def)
  have a: "\<And>k' t. (k', t) \<in> set al \<Longrightarrow>
      t < length r \<and> dc_state (r ! t) = Pending \<and> dc_key (r ! t) = k'"
    using ok by (auto simp: table_ok_def)
  have b: "\<And>t. t < length r \<Longrightarrow> dc_state (r ! t) = Pending \<Longrightarrow> (dc_key (r ! t), t) \<in> set al"
    using ok by (auto simp: table_ok_def)
  have "distinct (map fst (AList.delete k al))"
    using d by (rule AList.distinct_delete)
  moreover have "\<forall>(k', t) \<in> set (AList.delete k al).
      t < length (r[timer := (r ! timer)\<lparr>dc_state := st\<rparr>]) \<and>
      dc_state (r[timer := (r ! timer)\<lparr>dc_state := st\<rparr>] ! t) = Pending \<and>
      dc_key (r[timer := (r ! timer)\<lparr>dc_state := st\<rparr>] ! t) = k'"
  proof (clarify)
    fix k' t assume "(k', t) \<in> set (AList.delete k al)"
    then have m: "(k', t) \<in> set al" and ne: "k' \<noteq> k" by (auto simp: set_delete)
    from a[OF m] have p: "t < length r" "dc_state (r ! t) = Pending" "dc_key (r ! t) = k'"
      by auto
    with t ne have "t \<noteq> timer" by auto
    with p show "t < length (r[timer := (r ! timer)\<lparr>dc_state := st\<rparr>]) \<and>
      dc_state (r[timer := (r ! timer)\<lparr>dc_state := st\<rparr>] ! t) = Pending \<and>
      dc_key (r[timer := (r ! timer)\<lparr>dc_state := st\<rparr>] ! t) = k'"
      by simp
  qed
  moreover have "\<forall>t < length (r[timer := (r ! timer)\<lparr>dc_state := st\<rparr>]).
      dc_state (r[timer := (r ! timer)\<lparr>dc_state := st\<rparr>] ! t) = Pending \<longrightarrow>
      (dc_key (r[timer := (r ! timer)\<lparr>dc_state := st\<rparr>] ! t), t) \<in> set (AList.delete k al)"
  proof (intro allI impI)
    fix t assume lt: "t < length (r[timer := (r ! timer)\<lparr>dc_state := st\<rparr>])"
      and pe: "dc_state (r[timer := (r ! timer)\<lparr>dc_state := st\<rparr>] ! t) = Pending"
    have ne: "t \<noteq> timer"
    proof
      assume "t = timer"
      with pe t(1) st show False by simp
    qed
    with lt pe have p: "t < length r" "dc_state (r ! t) = Pending" by auto
    from b[OF p] have m: "(dc_key (r ! t), t) \<in> set al" .
    have "dc_key (r ! t) \<noteq> k"
    proof
      assume "dc_key (r ! t) = k"
      with m d have "map_of al k = Some t" by (auto intro: map_of_is_SomeI)
      with look ne show False by simp
    qed
    with m ne show "(dc_key (r[timer := (r ! timer)\<lparr>dc_state := st\<rparr>] ! t), t)
        \<in> set (AList.delete k al)"
      by (simp add: set_delete)
  qed
  ultimately show ?thesis unfolding table_ok_def by blast
qed

lemma table_ok_add:
  assumes ok: "table_ok al r" and fresh: "k \<notin> fst ` set al"
  shows "table_ok (al @ [(k, length r)])
           (r @ [\<lparr>dc_seconds = d, dc_key = k, dc_state = Pending\<rparr>])"
proof -
  have d: "distinct (map fst al)" using ok by (simp add: table_ok_def)
  have a: "\<And>k' t. (k', t) \<in> set al \<Longrightarrow>
      t < length r \<and> dc_state (r ! t) = Pending \<and> dc_key (r ! t) = k'"
    using ok by (auto simp: table_ok_def)
  have b: "\<And>t. t < length r \<Longrightarrow> dc_state (r ! t) = Pending \<Longrightarrow> (dc_key (r ! t), t) \<in> set al"
    using ok by (auto simp: table_ok_def)
  show ?thesis
    unfolding table_ok_def
  proof (intro conjI)
    show "distinct (map fst (al @ [(k, length r)]))" using d fresh by simp
    show "\<forall>(k', timer)\<in>set (al @ [(k, length r)]).
       timer < length (r @ [\<lparr>dc_seconds = d, dc_key = k, dc_state = Pending\<rparr>]) \<and>
       dc_state ((r @ [\<lparr>dc_seconds = d, dc_key = k, dc_state = Pending\<rparr>]) ! timer) = Pending \<and>
       dc_key ((r @ [\<lparr>dc_seconds = d, dc_key = k, dc_state = Pending\<rparr>]) ! timer) = k'"
      using a by (auto simp: nth_append)
    show "\<forall>timer<length (r @ [\<lparr>dc_seconds = d, dc_key = k, dc_state = Pending\<rparr>]).
       dc_state ((r @ [\<lparr>dc_seconds = d, dc_key = k, dc_state = Pending\<rparr>]) ! timer) = Pending \<longrightarrow>
       (dc_key ((r @ [\<lparr>dc_seconds = d, dc_key = k, dc_state = Pending\<rparr>]) ! timer), timer)
       \<in> set (al @ [(k, length r)])"
      using b by (auto simp: nth_append less_Suc_eq)
  qed
qed

lemma length_pop_timer [simp]: "length (pop_timer k al r) = length r"
  by (simp add: pop_timer_def split: option.splits)

lemma table_ok_pop:
  assumes "table_ok al r"
  shows "table_ok (AList.delete k al) (pop_timer k al r)"
proof (cases "map_of al k")
  case None
  then have "k \<notin> fst ` set al" by (simp add: map_of_eq_None_iff)
  with None assms show ?thesis by (simp add: pop_timer_def)
next
  case (Some timer)
  with table_ok_retire[OF assms Some, of Cancelled] show ?thesis
    by (simp add: pop_timer_def)
qed

lemma set_timer_result:
  assumes "timers_ok s"
  shows "set_timer clk delay param channel mode s =
     Inr (s\<lparr>later_timers := AList.delete (param, channel, mode) (later_timers s)
                              @ [((param, channel, mode), length (reactor s))],
            laters := without param channel mode (laters s)
                        @ [(clk (ticks s) + delay, param, channel, mode)],
            config_file := Some (without param channel mode (laters s)
                        @ [(clk (ticks s) + delay, param, channel, mode)]),
            reactor := pop_timer (param, channel, mode) (later_timers s) (reactor s)
                        @ [\<lparr>dc_seconds = max 1 delay, dc_key = (param, channel, mode),
                            dc_state = Pending\<rparr>],
            ticks := Suc (ticks s)\<rparr>)"
proof (cases "map_of (later_timers s) (param, channel, mode)")
  case None
  then have "(param, channel, mode) \<notin> fst ` set (later_timers s)"
    by (simp add: map_of_eq_None_iff)
  with None show ?thesis
    by (simp add: set_timer_def pop_timer_def callLater_def time_time_def save_def
        update_fresh Let_def)
next
  case (Some timer)
  from assms have "table_ok (later_timers s) (reactor s)" by (simp add: timers_ok_def)
  from table_ok_lookup[OF this Some]
  have c: "cancel timer (reactor s) =
      Inr ((reactor s)[timer := (reactor s ! timer)\<lparr>dc_state := Cancelled\<rparr>])"
    by (simp add: cancel_pending)
  have "(param, channel, mode) \<notin> fst ` set (AList.delete (param, channel, mode) (later_timers s))"
    by (rule AList.delete_notin_dom)
  then have u: "AList.update (param, channel, mode) v
           (AList.delete (param, channel, mode) (later_timers s)) =
         AList.delete (param, channel, mode) (later_timers s) @ [((param, channel, mode), v)]" for v
    by (rule update_fresh)
  show ?thesis
    by (simp add: set_timer_def pop_timer_def callLater_def time_time_def save_def
        Some c u Let_def)
qed

lemma key_of_simp [simp]: "key_of (t, p, c, m) = (p, c, m)"
  by (simp add: key_of_def)

lemma keys_without:
  "key_of ` set (without param channel mode items) = key_of ` set items - {(param, channel, mode)}"
  by (auto simp: without_def key_of_def image_iff)

lemma keys_delete: "fst ` set (AList.delete k al) = fst ` set al - {k}"
  by (auto simp: set_delete image_iff)

lemma set_timer_keeps:
  assumes "timers_ok s"
  shows "\<exists>s'. set_timer clk delay param channel mode s = Inr s' \<and> timers_ok s' \<and>
           timer_keys s' = insert (param, channel, mode) (timer_keys s) \<and>
           later_keys s' = insert (param, channel, mode) (later_keys s) \<and>
           config_file s' = Some (laters s')"
proof -
  let ?k = "(param, channel, mode)"
  from assms have ok: "table_ok (later_timers s) (reactor s)" by (simp add: timers_ok_def)
  have "table_ok (AList.delete ?k (later_timers s) @
                   [(?k, length (pop_timer ?k (later_timers s) (reactor s)))])
          (pop_timer ?k (later_timers s) (reactor s) @
             [\<lparr>dc_seconds = max 1 delay, dc_key = ?k, dc_state = Pending\<rparr>])"
    by (rule table_ok_add[OF table_ok_pop[OF ok]]) (rule AList.delete_notin_dom)
  then have 1: "timers_ok (s\<lparr>later_timers := AList.delete ?k (later_timers s)
                              @ [(?k, length (reactor s))],
            laters := without param channel mode (laters s)
                        @ [(clk (ticks s) + delay, param, channel, mode)],
            config_file := Some (without param channel mode (laters s)
                        @ [(clk (ticks s) + delay, param, channel, mode)]),
            reactor := pop_timer ?k (later_timers s) (reactor s)
                        @ [\<lparr>dc_seconds = max 1 delay, dc_key = ?k, dc_state = Pending\<rparr>],
            ticks := Suc (ticks s)\<rparr>)"
    by (simp add: timers_ok_def)
  have 2: "fst ` set (AList.delete ?k (later_timers s) @ [(?k, length (reactor s))]) =
      insert ?k (fst ` set (later_timers s))"
    by (auto simp: keys_delete)
  have 3: "key_of ` set (without param channel mode (laters s)
                        @ [(clk (ticks s) + delay, param, channel, mode)]) =
      insert ?k (key_of ` set (laters s))"
    by (auto simp: keys_without)
  show ?thesis
    unfolding set_timer_result[OF assms] timer_keys_def later_keys_def
    using 1 2 3 by simp
qed

lemma mode_change_result:
  assumes "timers_ok s"
  shows "on_event_irc_on_mode_change event s =
     (let mode = (if ev_set event then ''+'' else ''-'') @ ev_mode event;
          k = (ev_arg event, ev_channel event, mode)
      in case map_of (later_timers s) k of
           None \<Rightarrow> Inr s
         | Some timer \<Rightarrow>
             Inr (s\<lparr>later_timers := AList.delete k (later_timers s),
                    reactor := pop_timer k (later_timers s) (reactor s),
                    laters := without (ev_arg event) (ev_channel event) mode (laters s),
                    config_file :=
                      Some (without (ev_arg event) (ev_channel event) mode (laters s))\<rparr>))"
proof -
  from assms have ok: "table_ok (later_timers s) (reactor s)" by (simp add: timers_ok_def)
  show ?thesis
    using table_ok_lookup[OF ok]
    by (auto simp: on_event_irc_on_mode_change_def Let_def pop_timer_def save_def cancel_pending
        split: option.splits)
qed

lemma mode_change_keeps:
  assumes "consistent s"
  shows "\<exists>s'. on_event_irc_on_mode_change event s = Inr s' \<and> consistent s'"
proof -
  from assms have t: "timers_ok s" and e: "timer_keys s = later_keys s"
    by (simp_all add: consistent_def)
  from t have ok: "table_ok (later_timers s) (reactor s)" by (simp add: timers_ok_def)
  let ?mode = "(if ev_set event then ''+'' else ''-'') @ ev_mode event"
  let ?k = "(ev_arg event, ev_channel event, ?mode)"
  show ?thesis
  proof (cases "map_of (later_timers s) ?k")
    case None
    with assms show ?thesis by (simp add: mode_change_result[OF t] Let_def)
  next
    case (Some timer)
    from table_ok_pop[OF ok, of ?k] e Some show ?thesis
      by (simp add: mode_change_result[OF t] Let_def consistent_def timers_ok_def
          timer_keys_def later_keys_def keys_without keys_delete)
  qed
qed

lemma do_later_state:
  "map_of (later_timers s) (param, channel, mode) = Some timer \<Longrightarrow>
   fst (do_later tr (param, channel, mode) s) =
     s\<lparr>later_timers := AList.delete (param, channel, mode) (later_timers s),
       laters := without param channel mode (laters s),
       config_file := Some (without param channel mode (laters s))\<rparr>"
  by (simp add: do_later_def save_def Let_def split: prod.splits option.splits exc.splits)

lemma fire_keeps:
  assumes "consistent s"
  shows "consistent (fst (fire tr timer s))"
proof (cases "timer < length (reactor s) \<and> dc_state (reactor s ! timer) = Pending")
  case False
  with assms show ?thesis by (auto simp: fire_def)
next
  case True
  from assms have ok: "table_ok (later_timers s) (reactor s)"
    and e: "timer_keys s = later_keys s"
    by (simp_all add: consistent_def timers_ok_def)
  obtain param channel mode where k: "dc_key (reactor s ! timer) = (param, channel, mode)"
    by (cases "dc_key (reactor s ! timer)") auto
  from True table_ok_filed[OF ok, of timer] k
  have look: "map_of (later_timers s) (param, channel, mode) = Some timer" by simp
  have "table_ok (AList.delete (param, channel, mode) (later_timers s))
          ((reactor s)[timer := (reactor s ! timer)\<lparr>dc_state := Called\<rparr>])"
    by (rule table_ok_retire[OF ok look]) simp
  with True k look e show ?thesis
    by (simp add: fire_def do_later_state[where timer = timer] consistent_def timers_ok_def
        timer_keys_def later_keys_def keys_without keys_delete)
qed

lemma step_keeps:
  assumes "consistent s"
  shows "\<exists>s'. step tr clk x s = Inr s' \<and> consistent s'"
proof (cases x)
  case (Schedule delay param channel mode)
  from assms have t: "timers_ok s" and e: "timer_keys s = later_keys s"
    by (simp_all add: consistent_def)
  from set_timer_keeps[OF t, of clk delay param channel mode] e Schedule
  show ?thesis by (auto simp: consistent_def)
next
  case (Invalidate event)
  with mode_change_keeps[OF assms, of event] show ?thesis by simp
next
  case (Fire timer)
  with fire_keeps[OF assms, of tr timer] show ?thesis by simp
qed

lemma run_keeps:
  "consistent s \<Longrightarrow> \<exists>s'. run tr clk xs s = Inr s' \<and> consistent s'"
proof (induction xs arbitrary: s)
  case Nil
  then show ?case by simp
next
  case (Cons x xs)
  from step_keeps[OF Cons.prems, of tr clk x]
  obtain s1 where 1: "step tr clk x s = Inr s1" and 2: "consistent s1" by blast
  from Cons.IH[OF 2] 1 show ?case by simp
qed

lemma timers_ok_ticks [simp]: "timers_ok (s\<lparr>ticks := n\<rparr>) = timers_ok s"
  by (simp add: timers_ok_def)

lemma set_each_timer_keeps:
  "timers_ok s \<Longrightarrow>
   \<exists>s'. set_each_timer clk items s = Inr s' \<and> timers_ok s' \<and>
        timer_keys s' = timer_keys s \<union> key_of ` set items \<and>
        later_keys s' = later_keys s \<union> key_of ` set items \<and>
        started s' = started s"
proof (induction items arbitrary: s)
  case Nil
  then show ?case by simp
next
  case (Cons item items)
  obtain activatetime param channel mode where item: "item = (activatetime, param, channel, mode)"
    by (cases item) auto
  let ?s1 = "s\<lparr>ticks := Suc (ticks s)\<rparr>"
  have t1: "timers_ok ?s1" using Cons.prems by simp
  from set_timer_keeps[OF t1, of clk "activatetime - clk (ticks s)" param channel mode]
  obtain s2 where 1: "set_timer clk (activatetime - clk (ticks s)) param channel mode ?s1 = Inr s2"
    and 2: "timers_ok s2"
    and 3: "timer_keys s2 = insert (param, channel, mode) (timer_keys ?s1)"
    and 4: "later_keys s2 = insert (param, channel, mode) (later_keys ?s1)"
    by blast
  have 5: "started s2 = started s"
    using 1 unfolding set_timer_result[OF t1] by auto
  from Cons.IH[OF 2] obtain s' where
    6: "set_each_timer clk items s2 = Inr s'" and 7: "timers_ok s'"
    and 8: "timer_keys s' = timer_keys s2 \<union> key_of ` set items"
    and 9: "later_keys s' = later_keys s2 \<union> key_of ` set items"
    and 10: "started s' = started s2" by blast
  have "set_each_timer clk (item # items) s = Inr s'"
    using 1 6 by (simp add: item time_time_def)
  moreover have "timer_keys s' = timer_keys s \<union> key_of ` set (item # items)"
    using 3 8 by (auto simp: item timer_keys_def)
  moreover have "later_keys s' = later_keys s \<union> key_of ` set (item # items)"
    using 4 9 by (auto simp: item later_keys_def)
  ultimately show ?case using 7 5 10 by simp
qed

lemma init_result:
  "init clk file dt =
     Inr \<lparr>started = False, later_timers = [],
          laters = (case file of None \<Rightarrow> [] | Some items \<Rightarrow> items), config_file = file,
          defaulttime = dt, reactor = [], ticks = 0\<rparr>"
  by (simp add: init_def reload_def)

lemma start_fresh:
  assumes "later_timers s = []" and "reactor s = []"
  shows "\<exists>s'. start clk s = Inr s' \<and> consistent s' \<and> later_keys s' = later_keys s \<and> started s'"
proof -
  let ?s = "s\<lparr>started := True, reactor := []\<rparr>"
  have t: "timers_ok ?s" using assms by (simp add: timers_ok_def table_ok_def)
  from set_each_timer_keeps[OF t, of clk "laters s"]
  obtain s' where "set_each_timer clk (laters s) ?s = Inr s'" "timers_ok s'"
    "timer_keys s' = timer_keys ?s \<union> key_of ` set (laters s)"
    "later_keys s' = later_keys ?s \<union> key_of ` set (laters s)" "started s' = started ?s"
    by blast
  with assms show ?thesis
    by (auto simp: start_def set_all_timers_def consistent_def timer_keys_def later_keys_def)
qed

subsection \<open>Timer table and persisted list name the same keys\<close>

text \<open>
  Claim C1. A plugin is constructed on any JSON file and started; then any sequence of
  \<open>_set_timer\<close> calls, mode-change events and timer runs goes through without an
  exception of the plugin's own, and after it the keys \<open>(param, channel, mode)\<close> of
  \<open>later_timers\<close> are exactly the keys of the entries of \<open>config['laters']\<close>.
\<close>

theorem later_timers_keys_eq_laters_keys:
  "\<exists>s_new s0. init clk file dt = Inr s_new \<and> start clk s_new = Inr s0 \<and>
     (\<forall>xs. \<exists>s. run tr clk xs s0 = Inr s \<and>
        fst ` set (later_timers s) = key_of ` set (laters s))"
proof -
  let ?s_new = "\<lparr>started = False, later_timers = [],
          laters = (case file of None \<Rightarrow> [] | Some items \<Rightarrow> items), config_file = file,
          defaulttime = dt, reactor = [], ticks = 0\<rparr>"
  have "later_timers ?s_new = []" and "reactor ?s_new = []" by simp_all
  from start_fresh[OF this, of clk]
  obtain s0 where 1: "start clk ?s_new = Inr s0" and 2: "consistent s0" by blast
  have "\<exists>s. run tr clk xs s0 = Inr s \<and> fst ` set (later_timers s) = key_of ` set (laters s)"
    for xs
    using run_keeps[OF 2, of tr clk xs]
    by (auto simp: consistent_def timer_keys_def later_keys_def)
  with 1 show ?thesis by (simp add: init_result)
qed

theorem later_timers_keys_eq_laters_keys_witness:
  "\<exists>s_new s0.
     init (\<lambda>n. 100 + real n) (Some [(160, ''x!*@*'', ''#a'', ''-q'')]) None = Inr s_new \<and>
     start (\<lambda>n. 100 + real n) s_new = Inr s0 \<and>
     (\<forall>xs. \<exists>s. run (\<lambda>rq. None) (\<lambda>n. 100 + real n) xs s0 = Inr s \<and>
        fst ` set (later_timers s) = key_of ` set (laters s))"
  by (rule later_timers_keys_eq_laters_keys)

lemma delete_append:
  "AList.delete k (xs @ ys) = AList.delete k xs @ AList.delete k ys"
  by (simp add: AList.delete_eq)

lemma map_of_delete_same: "map_of (AList.delete k al) k = None"
  by (simp add: AList.delete_conv')

lemma no_pending_after_pop:
  assumes ok: "table_ok al r" and lt: "t < length r"
  shows "\<not> (dc_state (pop_timer k al r ! t) = Pending \<and> dc_key (pop_timer k al r ! t) = k)"
proof (cases "map_of al k")
  case None
  show ?thesis
  proof
    assume a: "dc_state (pop_timer k al r ! t) = Pending \<and> dc_key (pop_timer k al r ! t) = k"
    with None have "dc_state (r ! t) = Pending" "dc_key (r ! t) = k"
      by (simp_all add: pop_timer_def)
    with table_ok_filed[OF ok lt] None show False by simp
  qed
next
  case (Some timer)
  show ?thesis
  proof
    assume a: "dc_state (pop_timer k al r ! t) = Pending \<and> dc_key (pop_timer k al r ! t) = k"
    have r: "pop_timer k al r = r[timer := (r ! timer)\<lparr>dc_state := Cancelled\<rparr>]"
      using Some by (simp add: pop_timer_def)
    show False
    proof (cases "t = timer")
      case True
      with a r lt show False by simp
    next
      case False
      with a r lt have "dc_state (r ! t) = Pending" "dc_key (r ! t) = k" by simp_all
      with table_ok_filed[OF ok lt] Some False show False by simp
    qed
  qed
qed

lemma set_timer_single:
  assumes t: "timers_ok s"
  shows "\<exists>s'. set_timer clk delay param channel mode s = Inr s' \<and> timers_ok s' \<and>
     length (reactor s') = Suc (length (reactor s)) \<and> ticks s' = Suc (ticks s) \<and>
     map_of (later_timers s') (param, channel, mode) = Some (length (reactor s)) \<and>
     filter (\<lambda>p. fst p = (param, channel, mode)) (later_timers s') =
       [((param, channel, mode), length (reactor s))] \<and>
     pending_for (param, channel, mode) s' = [length (reactor s)] \<and>
     dc_seconds (reactor s' ! length (reactor s)) = max 1 delay \<and>
     (\<forall>timer. map_of (later_timers s) (param, channel, mode) = Some timer \<longrightarrow>
        dc_state (reactor s' ! timer) = Cancelled) \<and>
     entries_for (param, channel, mode) s' = [(clk (ticks s) + delay, param, channel, mode)] \<and>
     config_file s' = Some (laters s')"
proof -
  let ?k = "(param, channel, mode)"
  let ?n = "length (reactor s)"
  let ?new = "\<lparr>dc_seconds = max 1 delay, dc_key = ?k, dc_state = Pending\<rparr>"
  let ?r = "pop_timer ?k (later_timers s) (reactor s)"
  let ?s' = "s\<lparr>later_timers := AList.delete ?k (later_timers s) @ [(?k, ?n)],
            laters := without param channel mode (laters s)
                        @ [(clk (ticks s) + delay, param, channel, mode)],
            config_file := Some (without param channel mode (laters s)
                        @ [(clk (ticks s) + delay, param, channel, mode)]),
            reactor := ?r @ [?new],
            ticks := Suc (ticks s)\<rparr>"
  from t have ok: "table_ok (later_timers s) (reactor s)" by (simp add: timers_ok_def)
  have res: "set_timer clk delay param channel mode s = Inr ?s'"
    by (rule set_timer_result[OF t])
  from set_timer_keeps[OF t, of clk delay param channel mode] res
  have t': "timers_ok ?s'" by auto
  have look: "map_of (later_timers ?s') ?k = Some ?n"
    by (simp add: map_add_def map_of_delete_same)
  have once: "filter (\<lambda>p. fst p = ?k) (later_timers ?s') = [(?k, ?n)]"
    by (auto simp: AList.delete_eq filter_empty_conv)
  have "filter (\<lambda>timer. dc_state ((?r @ [?new]) ! timer) = Pending \<and>
                           dc_key ((?r @ [?new]) ! timer) = ?k) [0..<?n] = []"
    using no_pending_after_pop[OF ok, of _ ?k]
    by (auto simp: filter_empty_conv nth_append)
  then have pend: "pending_for ?k ?s' = [?n]"
    by (simp add: pending_for_def nth_append)
  have secs: "dc_seconds (reactor ?s' ! ?n) = max 1 delay"
    by (simp add: nth_append)
  have canc: "dc_state (reactor ?s' ! timer) = Cancelled"
    if "map_of (later_timers s) ?k = Some timer" for timer
    using table_ok_lookup[OF ok that] that by (simp add: nth_append pop_timer_def)
  have ent: "entries_for ?k ?s' = [(clk (ticks s) + delay, param, channel, mode)]"
    by (auto simp: entries_for_def without_def key_of_def filter_empty_conv)
  show ?thesis
    unfolding res using t' look once pend secs canc ent by simp
qed

subsection \<open>Scheduling the same key twice\<close>

text \<open>
  Claim C2. On a well-formed timer table, two calls of \<open>_set_timer\<close> with the same
  \<open>(param, channel, mode)\<close> both return; afterwards \<open>later_timers\<close> files the key once,
  under the timer of the second call, which is the only pending call for the key (the
  timer of the first call is cancelled); \<open>config['laters']\<close> holds one entry for the
  key, with the second delay, and is saved; each timer was set to \<open>max(1, delay)\<close>
  seconds, which is at least 1.
\<close>

theorem set_timer_twice_replaces:
  assumes "timers_ok s"
  shows "\<exists>s1 s2.
     set_timer clk d1 param channel mode s = Inr s1 \<and>
     set_timer clk d2 param channel mode s1 = Inr s2 \<and>
     filter (\<lambda>p. fst p = (param, channel, mode)) (later_timers s2) =
       [((param, channel, mode), Suc (length (reactor s)))] \<and>
     pending_for (param, channel, mode) s2 = [Suc (length (reactor s))] \<and>
     dc_state (reactor s2 ! length (reactor s)) = Cancelled \<and>
     dc_seconds (reactor s1 ! length (reactor s)) = max 1 d1 \<and>
     dc_seconds (reactor s2 ! Suc (length (reactor s))) = max 1 d2 \<and>
     1 \<le> dc_seconds (reactor s1 ! length (reactor s)) \<and>
     1 \<le> dc_seconds (reactor s2 ! Suc (length (reactor s))) \<and>
     entries_for (param, channel, mode) s2 = [(clk (Suc (ticks s)) + d2, param, channel, mode)] \<and>
     config_file s2 = Some (laters s2)"
proof -
  from set_timer_single[OF assms, of clk d1 param channel mode]
  obtain s1 where 1: "set_timer clk d1 param channel mode s = Inr s1" and t1: "timers_ok s1"
    and n1: "length (reactor s1) = Suc (length (reactor s))" and k1: "ticks s1 = Suc (ticks s)"
    and l1: "map_of (later_timers s1) (param, channel, mode) = Some (length (reactor s))"
    and d1: "dc_seconds (reactor s1 ! length (reactor s)) = max 1 d1"
    by blast
  from set_timer_single[OF t1, of clk d2 param channel mode]
  obtain s2 where 2: "set_timer clk d2 param channel mode s1 = Inr s2"
    and f2: "filter (\<lambda>p. fst p = (param, channel, mode)) (later_timers s2) =
       [((param, channel, mode), length (reactor s1))]"
    and p2: "pending_for (param, channel, mode) s2 = [length (reactor s1)]"
    and d2: "dc_seconds (reactor s2 ! length (reactor s1)) = max 1 d2"
    and c2: "\<forall>timer. map_of (later_timers s1) (param, channel, mode) = Some timer \<longrightarrow>
        dc_state (reactor s2 ! timer) = Cancelled"
    and e2: "entries_for (param, channel, mode) s2 = [(clk (ticks s1) + d2, param, channel, mode)]"
    and g2: "config_file s2 = Some (laters s2)"
    by blast
  from c2 l1 have "dc_state (reactor s2 ! length (reactor s)) = Cancelled" by blast
  with 1 2 f2 p2 d1 d2 e2 g2 show ?thesis by (simp add: n1 k1)
qed

theorem set_timer_twice_replaces_witness:
  "timers_ok \<lparr>started = True, later_timers = [], laters = [], config_file = None,
              defaulttime = None, reactor = [], ticks = 0\<rparr> \<and>
   (\<exists>s1 s2.
     set_timer (\<lambda>n. 100 + real n) 30 ''x!*@*'' ''#a'' ''-q''
       \<lparr>started = True, later_timers = [], laters = [], config_file = None,
        defaulttime = None, reactor = [], ticks = 0\<rparr> = Inr s1 \<and>
     set_timer (\<lambda>n. 100 + real n) (1/2) ''x!*@*'' ''#a'' ''-q'' s1 = Inr s2 \<and>
     filter (\<lambda>p. fst p = (''x!*@*'', ''#a'', ''-q'')) (later_timers s2) =
       [((''x!*@*'', ''#a'', ''-q''), 1)] \<and>
     pending_for (''x!*@*'', ''#a'', ''-q'') s2 = [1] \<and>
     dc_state (reactor s2 ! 0) = Cancelled \<and>
     dc_seconds (reactor s1 ! 0) = 30 \<and>
     dc_seconds (reactor s2 ! 1) = 1 \<and>
     entries_for (''x!*@*'', ''#a'', ''-q'') s2 = [(203 / 2, ''x!*@*'', ''#a'', ''-q'')] \<and>
     config_file s2 = Some (laters s2))"
proof -
  have ok: "timers_ok \<lparr>started = True, later_timers = [], laters = [], config_file = None,
              defaulttime = None, reactor = [], ticks = 0\<rparr>"
    by (simp add: timers_ok_def table_ok_def)
  from set_timer_twice_replaces[OF ok, of "\<lambda>n. 100 + real n" 30 "''x!*@*''" "''#a''" "''-q''" "1/2"]
  obtain s1 s2 where
    "set_timer (\<lambda>n. 100 + real n) 30 ''x!*@*'' ''#a'' ''-q''
       \<lparr>started = True, later_timers = [], laters = [], config_file = None,
        defaulttime = None, reactor = [], ticks = 0\<rparr> = Inr s1"
    "set_timer (\<lambda>n. 100 + real n) (1/2) ''x!*@*'' ''#a'' ''-q'' s1 = Inr s2"
    "filter (\<lambda>p. fst p = (''x!*@*'', ''#a'', ''-q'')) (later_timers s2) =
       [((''x!*@*'', ''#a'', ''-q''), 1)]"
    "pending_for (''x!*@*'', ''#a'', ''-q'') s2 = [1]"
    "dc_state (reactor s2 ! 0) = Cancelled"
    "dc_seconds (reactor s1 ! 0) = 30"
    "dc_seconds (reactor s2 ! 1) = 1"
    "entries_for (''x!*@*'', ''#a'', ''-q'') s2 = [(203 / 2, ''x!*@*'', ''#a'', ''-q'')]"
    "config_file s2 = Some (laters s2)"
    by auto
  with ok show ?thesis by blast
qed

lemma without_eq: "without param channel mode items =
    filter (\<lambda>item. key_of item \<noteq> (param, channel, mode)) items"
  by (auto simp: without_def key_of_def intro: filter_cong)

lemma entries_without:
  "filter (\<lambda>item. key_of item = (param, channel, mode)) (without param channel mode items) = []"
  by (auto simp: without_eq filter_empty_conv)

lemma pending_after_pop:
  assumes "table_ok al r"
  shows "filter (\<lambda>t. dc_state (pop_timer k al r ! t) = Pending \<and>
                       dc_key (pop_timer k al r ! t) = k) [0..<length r] = []"
  using no_pending_after_pop[OF assms, of _ k] by (auto simp: filter_empty_conv)

subsection \<open>A mode change seen before the timer runs\<close>

text \<open>
  Claim C6. The event \<open>irc.on_mode_change\<close> names the key \<open>(arg, channel, sign + mode)\<close>,
  the sign being \<open>-\<close> when \<open>event.set\<close> is false. On a well-formed timer table the handler
  always returns. When the key is filed, its timer is cancelled (no call stays pending
  for the key), the key leaves \<open>later_timers\<close>, its entries leave \<open>config['laters']\<close>
  while the other entries stay, and the list is saved. When the key is not filed, the
  state is returned as it was.
\<close>

theorem mode_change_cancels_timer:
  assumes "timers_ok s"
  shows "(map_of (later_timers s) (param, channel, (if is_set then ''+'' else ''-'') @ letter) = None \<longrightarrow>
          on_event_irc_on_mode_change
            \<lparr>ev_set = is_set, ev_mode = letter, ev_arg = param, ev_channel = channel\<rparr> s = Inr s) \<and>
         (\<forall>timer.
            map_of (later_timers s) (param, channel, (if is_set then ''+'' else ''-'') @ letter)
              = Some timer \<longrightarrow>
            (\<exists>s'. on_event_irc_on_mode_change
                    \<lparr>ev_set = is_set, ev_mode = letter, ev_arg = param, ev_channel = channel\<rparr> s
                    = Inr s' \<and>
                  dc_state (reactor s' ! timer) = Cancelled \<and>
                  pending_for (param, channel, (if is_set then ''+'' else ''-'') @ letter) s' = [] \<and>
                  map_of (later_timers s') (param, channel, (if is_set then ''+'' else ''-'') @ letter)
                    = None \<and>
                  entries_for (param, channel, (if is_set then ''+'' else ''-'') @ letter) s' = [] \<and>
                  laters s' =
                    filter (\<lambda>item. key_of item \<noteq>
                              (param, channel, (if is_set then ''+'' else ''-'') @ letter)) (laters s) \<and>
                  config_file s' = Some (laters s')))"
proof -
  let ?mode = "(if is_set then ''+'' else ''-'') @ letter"
  let ?k = "(param, channel, ?mode)"
  let ?ev = "\<lparr>ev_set = is_set, ev_mode = letter, ev_arg = param, ev_channel = channel\<rparr>"
  from assms have ok: "table_ok (later_timers s) (reactor s)" by (simp add: timers_ok_def)
  have none: "on_event_irc_on_mode_change ?ev s = Inr s" if "map_of (later_timers s) ?k = None"
    using that by (simp add: mode_change_result[OF assms] Let_def)
  have some: "\<exists>s'. on_event_irc_on_mode_change ?ev s = Inr s' \<and>
                  dc_state (reactor s' ! timer) = Cancelled \<and>
                  pending_for ?k s' = [] \<and>
                  map_of (later_timers s') ?k = None \<and>
                  entries_for ?k s' = [] \<and>
                  laters s' = filter (\<lambda>item. key_of item \<noteq> ?k) (laters s) \<and>
                  config_file s' = Some (laters s')"
    if look: "map_of (later_timers s) ?k = Some timer" for timer
  proof -
    let ?s' = "s\<lparr>later_timers := AList.delete ?k (later_timers s),
                    reactor := pop_timer ?k (later_timers s) (reactor s),
                    laters := without param channel ?mode (laters s),
                    config_file := Some (without param channel ?mode (laters s))\<rparr>"
    have res: "on_event_irc_on_mode_change ?ev s = Inr ?s'"
      using look by (simp add: mode_change_result[OF assms] Let_def)
    have 1: "dc_state (reactor ?s' ! timer) = Cancelled"
      using table_ok_lookup[OF ok look] look by (simp add: pop_timer_def)
    have 2: "pending_for ?k ?s' = []"
      using pending_after_pop[OF ok, of ?k] by (simp add: pending_for_def)
    have 3: "map_of (later_timers ?s') ?k = None"
      by (simp add: map_of_delete_same)
    have 4: "entries_for ?k ?s' = []"
      using entries_without[of param channel ?mode "laters s"] by (simp add: entries_for_def)
    have 5: "laters ?s' = filter (\<lambda>item. key_of item \<noteq> ?k) (laters s)"
      by (simp add: without_eq)
    show ?thesis unfolding res using 1 2 3 4 5 by simp
  qed
  from none some show ?thesis by blast
qed

theorem mode_change_cancels_timer_witness:
  "\<exists>s0. set_timer (\<lambda>n. 100 + real n) 30 ''x!*@*'' ''#a'' ''-q''
       \<lparr>started = True, later_timers = [], laters = [], config_file = None,
        defaulttime = None, reactor = [], ticks = 0\<rparr> = Inr s0 \<and>
     timers_ok s0 \<and> map_of (later_timers s0) (''x!*@*'', ''#a'', ''-q'') = Some 0 \<and>
     map_of (later_timers s0) (''y!*@*'', ''#a'', ''-q'') = None \<and>
     on_event_irc_on_mode_change
       \<lparr>ev_set = False, ev_mode = ''q'', ev_arg = ''y!*@*'', ev_channel = ''#a''\<rparr> s0 = Inr s0 \<and>
     (\<exists>s'. on_event_irc_on_mode_change
             \<lparr>ev_set = False, ev_mode = ''q'', ev_arg = ''x!*@*'', ev_channel = ''#a''\<rparr> s0 = Inr s' \<and>
           dc_state (reactor s' ! 0) = Cancelled \<and>
           pending_for (''x!*@*'', ''#a'', ''-q'') s' = [] \<and>
           map_of (later_timers s') (''x!*@*'', ''#a'', ''-q'') = None \<and>
           entries_for (''x!*@*'', ''#a'', ''-q'') s' = [] \<and>
           config_file s' = Some (laters s'))"
proof -
  have ok: "timers_ok \<lparr>started = True, later_timers = [], laters = [], config_file = None,
              defaulttime = None, reactor = [], ticks = 0\<rparr>"
    by (simp add: timers_ok_def table_ok_def)
  from set_timer_single[OF ok, of "\<lambda>n. 100 + real n" 30 "''x!*@*''" "''#a''" "''-q''"]
  obtain s0 where 0: "set_timer (\<lambda>n. 100 + real n) 30 ''x!*@*'' ''#a'' ''-q''
       \<lparr>started = True, later_timers = [], laters = [], config_file = None,
        defaulttime = None, reactor = [], ticks = 0\<rparr> = Inr s0"
    and t0: "timers_ok s0"
    and l0: "map_of (later_timers s0) (''x!*@*'', ''#a'', ''-q'') = Some 0"
    by auto
  have n0: "map_of (later_timers s0) (''y!*@*'', ''#a'', ''-q'') = None"
    using 0 unfolding set_timer_result[OF ok] by auto
  from mode_change_cancels_timer[OF t0, of "''y!*@*''" "''#a''" False "''q''"] n0
  have a: "on_event_irc_on_mode_change
       \<lparr>ev_set = False, ev_mode = ''q'', ev_arg = ''y!*@*'', ev_channel = ''#a''\<rparr> s0 = Inr s0"
    by simp
  from mode_change_cancels_timer[OF t0, of "''x!*@*''" "''#a''" False "''q''"] l0
  have b: "\<exists>s'. on_event_irc_on_mode_change
             \<lparr>ev_set = False, ev_mode = ''q'', ev_arg = ''x!*@*'', ev_channel = ''#a''\<rparr> s0 = Inr s' \<and>
           dc_state (reactor s' ! 0) = Cancelled \<and>
           pending_for (''x!*@*'', ''#a'', ''-q'') s' = [] \<and>
           map_of (later_timers s') (''x!*@*'', ''#a'', ''-q'') = None \<and>
           entries_for (''x!*@*'', ''#a'', ''-q'') s' = [] \<and>
           config_file s' = Some (laters s')"
    by auto
  from 0 t0 l0 n0 a b show ?thesis by blast
qed

lemma mode_names_lookup:
  "map_of mode_names ''+b'' = Some ''ban''"
  "map_of mode_names ''-b'' = Some ''unban''"
  "map_of mode_names ''+q'' = Some ''quiet''"
  "map_of mode_names ''-q'' = Some ''unquiet''"
  "map_of mode_names ''+o'' = Some ''op''"
  "map_of mode_names ''-o'' = Some ''deop''"
  "map_of mode_names ''+v'' = Some ''voice''"
  "map_of mode_names ''-v'' = Some ''devoice''"
  by (simp_all add: mode_names_def)

lemma mode_names_other:
  "mode \<notin> {''+b'', ''-b'', ''+q'', ''-q'', ''+o'', ''-o'', ''+v'', ''-v''} \<Longrightarrow>
   map_of mode_names mode = None"
  by (simp add: mode_names_def)

lemma do_later_sends:
  assumes "map_of (later_timers s) (param, channel, mode) = Some timer"
    and "rq = (case map_of mode_names mode of
                 Some name \<Rightarrow> OpRequest (''ircop.'' @ name) channel param
               | None \<Rightarrow> ModeRequest channel mode param)"
  shows "(tr rq = None \<longrightarrow>
            snd (do_later tr (param, channel, mode) s) = ([Issue rq], None)) \<and>
         (\<forall>e. tr rq = Some (OpFailed e) \<or> tr rq = Some (ValueError e) \<longrightarrow>
            snd (do_later tr (param, channel, mode) s) =
              ([Issue rq,
                SendMsg channel (''I was about to do a '' @ mode @ '' '' @ param @ '', but '' @ e)],
               None))"
  using assms
  by (cases "map_of mode_names mode")
     (auto simp: do_later_def about_to_def Let_def)

subsection \<open>What a timer does when it runs\<close>

text \<open>
  Claim C3. A pending timer of a well-formed table runs \<open>do_later\<close> for its key
  \<open>(param, channel, mode)\<close>. The key leaves \<open>later_timers\<close>, its entries leave
  \<open>config['laters']\<close> (the others stay) and the list is saved. The mode is looked up in
  the table \<open>+b\<close> ban, \<open>-b\<close> unban, \<open>+q\<close> quiet, \<open>-q\<close> unquiet, \<open>+o\<close> op, \<open>-o\<close> deop,
  \<open>+v\<close> voice, \<open>-v\<close> devoice; the request sent is \<open>ircop.<name>\<close> with the channel and
  the parameter as target, or, for a mode outside the table, \<open>ircop.mode\<close> with the
  channel, the mode string and the parameter. When the request succeeds nothing else is
  sent. When it fails with \<open>OpFailed\<close> or \<open>ValueError\<close>, one message
  \<open>I was about to do a <mode> <param>, but <reason>\<close> goes to the channel, no second
  request is made, and no exception leaves \<open>do_later\<close>.
\<close>

theorem timer_run_sends_request:
  fixes tr :: transport
  defines "rq param channel mode \<equiv>
             (case map_of mode_names mode of
                Some name \<Rightarrow> OpRequest (''ircop.'' @ name) channel param
              | None \<Rightarrow> ModeRequest channel mode param)"
  assumes "timers_ok s" and "timer < length (reactor s)"
    and "dc_state (reactor s ! timer) = Pending"
    and "dc_key (reactor s ! timer) = (param, channel, mode)"
  shows "\<exists>s' out raised.
     fire tr timer s = (s', out, raised) \<and>
     dc_state (reactor s' ! timer) = Called \<and>
     map_of (later_timers s') (param, channel, mode) = None \<and>
     entries_for (param, channel, mode) s' = [] \<and>
     laters s' = filter (\<lambda>item. key_of item \<noteq> (param, channel, mode)) (laters s) \<and>
     config_file s' = Some (laters s') \<and>
     (tr (rq param channel mode) = None \<longrightarrow>
        out = [Issue (rq param channel mode)] \<and> raised = None) \<and>
     (\<forall>e. tr (rq param channel mode) = Some (OpFailed e) \<or>
          tr (rq param channel mode) = Some (ValueError e) \<longrightarrow>
        out = [Issue (rq param channel mode),
               SendMsg channel
                 (''I was about to do a '' @ mode @ '' '' @ param @ '', but '' @ e)] \<and>
        raised = None) \<and>
     rq param channel ''+b'' = OpRequest ''ircop.ban'' channel param \<and>
     rq param channel ''-b'' = OpRequest ''ircop.unban'' channel param \<and>
     rq param channel ''+q'' = OpRequest ''ircop.quiet'' channel param \<and>
     rq param channel ''-q'' = OpRequest ''ircop.unquiet'' channel param \<and>
     rq param channel ''+o'' = OpRequest ''ircop.op'' channel param \<and>
     rq param channel ''-o'' = OpRequest ''ircop.deop'' channel param \<and>
     rq param channel ''+v'' = OpRequest ''ircop.voice'' channel param \<and>
     rq param channel ''-v'' = OpRequest ''ircop.devoice'' channel param \<and>
     (mode \<notin> {''+b'', ''-b'', ''+q'', ''-q'', ''+o'', ''-o'', ''+v'', ''-v''} \<longrightarrow>
        rq param channel mode = ModeRequest channel mode param)"
proof -
  let ?k = "(param, channel, mode)"
  let ?sc = "s\<lparr>reactor := (reactor s)[timer := (reactor s ! timer)\<lparr>dc_state := Called\<rparr>]\<rparr>"
  from assms(2) have ok: "table_ok (later_timers s) (reactor s)" by (simp add: timers_ok_def)
  from table_ok_filed[OF ok assms(3,4)] assms(5)
  have look: "map_of (later_timers ?sc) ?k = Some timer" by simp
  have f: "fire tr timer s = do_later tr ?k ?sc"
    using assms(3,4,5) by (simp add: fire_def)
  let ?s' = "?sc\<lparr>later_timers := AList.delete ?k (later_timers ?sc),
       laters := without param channel mode (laters ?sc),
       config_file := Some (without param channel mode (laters ?sc))\<rparr>"
  have st: "fst (do_later tr ?k ?sc) = ?s'"
    by (rule do_later_state[OF look])
  have 1: "dc_state (reactor ?s' ! timer) = Called" using assms(3) by simp
  have 2: "map_of (later_timers ?s') ?k = None" by (simp add: map_of_delete_same)
  have 3: "entries_for ?k ?s' = []"
    using entries_without[of param channel mode "laters s"] by (simp add: entries_for_def)
  have 4: "laters ?s' = filter (\<lambda>item. key_of item \<noteq> ?k) (laters s)"
    by (simp add: without_eq)
  have 5: "config_file ?s' = Some (laters ?s')" by simp
  have rqd: "rq param channel mode = (case map_of mode_names mode of
                Some name \<Rightarrow> OpRequest (''ircop.'' @ name) channel param
              | None \<Rightarrow> ModeRequest channel mode param)"
    by (simp add: rq_def)
  note snd = do_later_sends[OF look rqd, of tr]
  have 6: "rq param channel ''+b'' = OpRequest ''ircop.ban'' channel param"
    "rq param channel ''-b'' = OpRequest ''ircop.unban'' channel param"
    "rq param channel ''+q'' = OpRequest ''ircop.quiet'' channel param"
    "rq param channel ''-q'' = OpRequest ''ircop.unquiet'' channel param"
    "rq param channel ''+o'' = OpRequest ''ircop.op'' channel param"
    "rq param channel ''-o'' = OpRequest ''ircop.deop'' channel param"
    "rq param channel ''+v'' = OpRequest ''ircop.voice'' channel param"
    "rq param channel ''-v'' = OpRequest ''ircop.devoice'' channel param"
    by (simp_all add: rq_def mode_names_lookup)
  have 7: "mode \<notin> {''+b'', ''-b'', ''+q'', ''-q'', ''+o'', ''-o'', ''+v'', ''-v''} \<longrightarrow>
        rq param channel mode = ModeRequest channel mode param"
    using mode_names_other[of mode] by (auto simp: rq_def)
  obtain s' out raised where d: "do_later tr ?k ?sc = (s', out, raised)"
    by (cases "do_later tr ?k ?sc") auto
  with st have s': "s' = ?s'" by simp
  from d snd have o: "(tr (rq param channel mode) = None \<longrightarrow>
        out = [Issue (rq param channel mode)] \<and> raised = None) \<and>
     (\<forall>e. tr (rq param channel mode) = Some (OpFailed e) \<or>
          tr (rq param channel mode) = Some (ValueError e) \<longrightarrow>
        out = [Issue (rq param channel mode),
               SendMsg channel
                 (''I was about to do a '' @ mode @ '' '' @ param @ '', but '' @ e)] \<and>
        raised = None)"
    by simp
  show ?thesis
    apply (rule exI[of _ ?s'], rule exI[of _ out], rule exI[of _ raised])
    apply (intro conjI)
    using f d s' apply simp
    using 1 apply blast
    using 2 apply blast
    using 3 apply blast
    using 4 apply blast
    using 5 apply blast
    using o apply blast
    using o apply blast
    using 6 7 apply blast+
    done
qed


theorem timer_run_sends_request_witness:
  "\<exists>s0. set_timer (\<lambda>n. 100 + real n) 30 ''x!*@*'' ''#a'' ''-q''
       \<lparr>started = True, later_timers = [], laters = [], config_file = None,
        defaulttime = None, reactor = [], ticks = 0\<rparr> = Inr s0 \<and>
     timers_ok s0 \<and> 0 < length (reactor s0) \<and> dc_state (reactor s0 ! 0) = Pending \<and>
     dc_key (reactor s0 ! 0) = (''x!*@*'', ''#a'', ''-q'') \<and>
     (\<exists>s'. fire (\<lambda>rq. Some (OpFailed ''I am not an operator'')) 0 s0 =
        (s', [Issue (OpRequest ''ircop.unquiet'' ''#a'' ''x!*@*''),
              SendMsg ''#a'' ''I was about to do a -q x!*@*, but I am not an operator''], None) \<and>
        dc_state (reactor s' ! 0) = Called \<and>
        map_of (later_timers s') (''x!*@*'', ''#a'', ''-q'') = None \<and>
        entries_for (''x!*@*'', ''#a'', ''-q'') s' = [] \<and>
        config_file s' = Some (laters s'))"
proof -
  have ok: "timers_ok \<lparr>started = True, later_timers = [], laters = [], config_file = None,
              defaulttime = None, reactor = [], ticks = 0\<rparr>"
    by (simp add: timers_ok_def table_ok_def)
  let ?s0 = "\<lparr>started = True, later_timers = [((''x!*@*'', ''#a'', ''-q''), 0)],
      laters = [(130, ''x!*@*'', ''#a'', ''-q'')],
      config_file = Some [(130, ''x!*@*'', ''#a'', ''-q'')],
      defaulttime = None,
      reactor = [\<lparr>dc_seconds = 30, dc_key = (''x!*@*'', ''#a'', ''-q''), dc_state = Pending\<rparr>],
      ticks = Suc 0\<rparr>"
  have 0: "set_timer (\<lambda>n. 100 + real n) 30 ''x!*@*'' ''#a'' ''-q''
       \<lparr>started = True, later_timers = [], laters = [], config_file = None,
        defaulttime = None, reactor = [], ticks = 0\<rparr> = Inr ?s0"
    unfolding set_timer_result[OF ok] by (simp add: without_def pop_timer_def)
  have t0: "timers_ok ?s0" by (simp add: timers_ok_def table_ok_def)
  have a: "0 < length (reactor ?s0)" "dc_state (reactor ?s0 ! 0) = Pending"
    "dc_key (reactor ?s0 ! 0) = (''x!*@*'', ''#a'', ''-q'')" by simp_all
  from timer_run_sends_request[OF t0 a, of "\<lambda>rq. Some (OpFailed ''I am not an operator'')"]
  have "\<exists>s'. fire (\<lambda>rq. Some (OpFailed ''I am not an operator'')) 0 ?s0 =
        (s', [Issue (OpRequest ''ircop.unquiet'' ''#a'' ''x!*@*''),
              SendMsg ''#a'' ''I was about to do a -q x!*@*, but I am not an operator''], None) \<and>
        dc_state (reactor s' ! 0) = Called \<and>
        map_of (later_timers s') (''x!*@*'', ''#a'', ''-q'') = None \<and>
        entries_for (''x!*@*'', ''#a'', ''-q'') s' = [] \<and>
        config_file s' = Some (laters s')"
    by (auto simp: mode_names_def)
  with 0 t0 a show ?thesis by blast
qed

lemma pop_timer_fresh: "k \<notin> fst ` set al \<Longrightarrow> pop_timer k al r = r"
  by (simp add: pop_timer_def map_of_eq_None_iff[symmetric])

lemma set_each_timer_fresh:
  "timers_ok s \<Longrightarrow> distinct (map key_of items) \<Longrightarrow> key_of ` set items \<inter> timer_keys s = {} \<Longrightarrow>
   \<exists>s'. set_each_timer clk items s = Inr s' \<and> timers_ok s' \<and>
     later_timers s' = later_timers s @
       map (\<lambda>(i, item). (key_of item, length (reactor s) + i)) (enumerate 0 items) \<and>
     reactor s' = reactor s @
       map (\<lambda>(i, item). \<lparr>dc_seconds = max 1 (fst item - clk (ticks s + 2 * i)),
                          dc_key = key_of item, dc_state = Pending\<rparr>) (enumerate 0 items)"
proof (induction items arbitrary: s)
  case Nil
  then show ?case by simp
next
  case (Cons item items)
  obtain activatetime param channel mode where item: "item = (activatetime, param, channel, mode)"
    by (cases item) auto
  let ?k = "(param, channel, mode)"
  let ?s1 = "s\<lparr>ticks := Suc (ticks s)\<rparr>"
  have t1: "timers_ok ?s1" using Cons.prems by simp
  have fresh: "?k \<notin> fst ` set (later_timers s)"
    using Cons.prems(3) by (auto simp: item timer_keys_def)
  let ?s2 = "s\<lparr>later_timers := later_timers s @ [(?k, length (reactor s))],
            laters := without param channel mode (laters s)
                        @ [(clk (Suc (ticks s)) + (activatetime - clk (ticks s)), param, channel, mode)],
            config_file := Some (without param channel mode (laters s)
                        @ [(clk (Suc (ticks s)) + (activatetime - clk (ticks s)), param, channel, mode)]),
            reactor := reactor s
                        @ [\<lparr>dc_seconds = max 1 (activatetime - clk (ticks s)), dc_key = ?k,
                            dc_state = Pending\<rparr>],
            ticks := Suc (Suc (ticks s))\<rparr>"
  have 1: "set_timer clk (activatetime - clk (ticks s)) param channel mode ?s1 = Inr ?s2"
    unfolding set_timer_result[OF t1] using fresh by (simp add: pop_timer_fresh)
  from set_timer_keeps[OF t1, of clk "activatetime - clk (ticks s)" param channel mode] 1
  have t2: "timers_ok ?s2" by auto
  have d2: "distinct (map key_of items)" using Cons.prems(2) by simp
  have i2: "key_of ` set items \<inter> timer_keys ?s2 = {}"
    using Cons.prems(2,3) by (auto simp: item timer_keys_def)
  from Cons.IH[OF t2 d2 i2] obtain s' where
    2: "set_each_timer clk items ?s2 = Inr s'" and 3: "timers_ok s'"
    and 4: "later_timers s' = later_timers ?s2 @
       map (\<lambda>(i, item). (key_of item, length (reactor ?s2) + i)) (enumerate 0 items)"
    and 5: "reactor s' = reactor ?s2 @
       map (\<lambda>(i, item). \<lparr>dc_seconds = max 1 (fst item - clk (ticks ?s2 + 2 * i)),
                          dc_key = key_of item, dc_state = Pending\<rparr>) (enumerate 0 items)"
    by blast
  have r: "set_each_timer clk (item # items) s = Inr s'"
    using 1 2 by (simp add: item time_time_def)
  have a: "later_timers s' = later_timers s @
       map (\<lambda>(i, item). (key_of item, length (reactor s) + i)) (enumerate 0 (item # items))"
    unfolding 4 by (simp add: item enumerate_Suc_eq split_def)
  have b: "reactor s' = reactor s @
       map (\<lambda>(i, item). \<lparr>dc_seconds = max 1 (fst item - clk (ticks s + 2 * i)),
                          dc_key = key_of item, dc_state = Pending\<rparr>) (enumerate 0 (item # items))"
    unfolding 5 by (simp add: item enumerate_Suc_eq split_def)
  from r 3 a b show ?case by blast
qed

lemma set_all_timers_fresh:
  assumes e: "later_timers s = []" and t: "timers_ok s"
    and d: "distinct (map key_of (laters s))"
  shows "\<exists>s'. set_all_timers clk s = Inr s' \<and> started s' = started s \<and>
     later_timers s' =
       map (\<lambda>(i, item). (key_of item, length (reactor s) + i)) (enumerate 0 (laters s)) \<and>
     reactor s' = reactor s @
       map (\<lambda>(i, item). \<lparr>dc_seconds = max 1 (fst item - clk (ticks s + 2 * i)),
                          dc_key = key_of item, dc_state = Pending\<rparr>) (enumerate 0 (laters s)) \<and>
     key_of ` set (laters s') = key_of ` set (laters s)"
proof -
  have r: "set_all_timers clk s = set_each_timer clk (laters s) s"
    using e by (simp add: set_all_timers_def)
  have i: "key_of ` set (laters s) \<inter> timer_keys s = {}"
    using e by (simp add: timer_keys_def)
  from set_each_timer_fresh[OF t d i, of clk] obtain s' where
    1: "set_each_timer clk (laters s) s = Inr s'"
    and 2: "later_timers s' = later_timers s @
       map (\<lambda>(i, item). (key_of item, length (reactor s) + i)) (enumerate 0 (laters s))"
    and 3: "reactor s' = reactor s @
       map (\<lambda>(i, item). \<lparr>dc_seconds = max 1 (fst item - clk (ticks s + 2 * i)),
                          dc_key = key_of item, dc_state = Pending\<rparr>) (enumerate 0 (laters s))"
    by blast
  from set_each_timer_keeps[OF t, of clk "laters s"] 1
  have 4: "later_keys s' = later_keys s \<union> key_of ` set (laters s)" and 5: "started s' = started s"
    by auto
  from 4 have "key_of ` set (laters s') = key_of ` set (laters s)"
    by (auto simp: later_keys_def)
  with r 1 2 3 5 e show ?thesis by simp
qed

subsection \<open>Setting the timers again from the saved list\<close>

text \<open>
  Claim C5, as the code has it. \<open>reload\<close> calls \<open>_set_all_timers\<close> only when \<open>started\<close>
  is true, so the reload of the constructor sets no timer; \<open>start()\<close> does. The first
  statement below is the constructor on a file with one entry: the entry is in the
  list and no timer exists.
\<close>

theorem constructor_reload_sets_no_timer:
  "init example_clock (Some [(160, ''x!*@*'', ''#a'', ''-q'')]) None =
     Inr \<lparr>started = False, later_timers = [], laters = [(160, ''x!*@*'', ''#a'', ''-q'')],
          config_file = Some [(160, ''x!*@*'', ''#a'', ''-q'')], defaulttime = None,
          reactor = [], ticks = 0\<rparr>"
  by (simp add: init_def reload_def)

text \<open>
  Claim C5, amended. Let the timer table be empty and no call be pending (as in a new
  process), and let list and file hold the same entries, with pairwise different keys.
  Then \<open>reload\<close> is \<open>start\<close> on a started plugin and changes nothing on one that is not
  started; and \<open>start\<close> returns with one pending timer per entry, in the order of the
  list, each filed under the key of its entry and set to
  \<open>max(1, activatetime - time.time())\<close> seconds, and with the keys of the list unchanged.
\<close>

theorem start_sets_one_timer_per_entry:
  assumes "later_timers s = []" and "timers_ok s"
    and "laters s = items" and "config_file s = Some items"
    and "distinct (map key_of items)"
  shows "reload clk s = (if started s then start clk s else Inr s) \<and>
     (\<exists>s'. start clk s = Inr s' \<and> started s' \<and>
        later_timers s' =
          map (\<lambda>(i, item). (key_of item, length (reactor s) + i)) (enumerate 0 items) \<and>
        reactor s' = reactor s @
          map (\<lambda>(i, item). \<lparr>dc_seconds = max 1 (fst item - clk (ticks s + 2 * i)),
                             dc_key = key_of item, dc_state = Pending\<rparr>) (enumerate 0 items) \<and>
        key_of ` set (laters s') = key_of ` set items)"
proof -
  have same: "s\<lparr>laters := items\<rparr> = s" using assms(3) by simp
  have 1: "reload clk s = (if started s then start clk s else Inr s)"
  proof (cases "started s")
    case True
    then have st: "s\<lparr>started := True\<rparr> = s" by simp
    have a: "start clk s = set_all_timers clk s"
      unfolding start_def st ..
    have b: "reload clk s = set_all_timers clk s"
      using True by (simp add: reload_def assms(4) same)
    from a b True show ?thesis by simp
  next
    case False
    with same show ?thesis by (simp add: reload_def assms(4))
  qed
  let ?s = "s\<lparr>started := True\<rparr>"
  have e: "later_timers ?s = []" using assms(1) by simp
  have t: "timers_ok ?s" using assms(2) by (simp add: timers_ok_def)
  have d: "distinct (map key_of (laters ?s))" using assms(3,5) by simp
  from set_all_timers_fresh[OF e t d, of clk] assms(3)
  have 2: "\<exists>s'. start clk s = Inr s' \<and> started s' \<and>
        later_timers s' =
          map (\<lambda>(i, item). (key_of item, length (reactor s) + i)) (enumerate 0 items) \<and>
        reactor s' = reactor s @
          map (\<lambda>(i, item). \<lparr>dc_seconds = max 1 (fst item - clk (ticks s + 2 * i)),
                             dc_key = key_of item, dc_state = Pending\<rparr>) (enumerate 0 items) \<and>
        key_of ` set (laters s') = key_of ` set items"
    by (auto simp: start_def)
  from 1 2 show ?thesis by blast
qed

theorem start_sets_one_timer_per_entry_witness:
  "\<exists>s'. start (\<lambda>n. 100 + real n)
       \<lparr>started = False, later_timers = [],
        laters = [(160, ''x!*@*'', ''#a'', ''-q''), (50, ''y!*@*'', ''#a'', ''-b'')],
        config_file = Some [(160, ''x!*@*'', ''#a'', ''-q''), (50, ''y!*@*'', ''#a'', ''-b'')],
        defaulttime = None, reactor = [], ticks = 0\<rparr> = Inr s' \<and>
     later_timers s' = [((''x!*@*'', ''#a'', ''-q''), 0), ((''y!*@*'', ''#a'', ''-b''), 1)] \<and>
     reactor s' =
       [\<lparr>dc_seconds = 60, dc_key = (''x!*@*'', ''#a'', ''-q''), dc_state = Pending\<rparr>,
        \<lparr>dc_seconds = 1, dc_key = (''y!*@*'', ''#a'', ''-b''), dc_state = Pending\<rparr>]"
proof -
  let ?items = "[(160::real, ''x!*@*'', ''#a'', ''-q''), (50, ''y!*@*'', ''#a'', ''-b'')]"
  let ?s = "\<lparr>started = False, later_timers = [], laters = ?items,
        config_file = Some ?items, defaulttime = None, reactor = [], ticks = 0\<rparr>"
  have a: "later_timers ?s = []" "timers_ok ?s" "laters ?s = ?items"
    "config_file ?s = Some ?items" "distinct (map key_of ?items)"
    by (simp_all add: timers_ok_def table_ok_def)
  from start_sets_one_timer_per_entry[OF a, of "\<lambda>n. 100 + real n"]
  show ?thesis by (auto simp: enumerate_eq_zip upt_rec)
qed

lemma reload_with_live_timer_raises:
  "reload (\<lambda>n. 100 + real n)
     \<lparr>started = True, later_timers = [((''x!*@*'', ''#a'', ''-q''), 0)],
      laters = [(160, ''x!*@*'', ''#a'', ''-q'')],
      config_file = Some [(160, ''x!*@*'', ''#a'', ''-q'')], defaulttime = None,
      reactor = [\<lparr>dc_seconds = 60, dc_key = (''x!*@*'', ''#a'', ''-q''), dc_state = Pending\<rparr>],
      ticks = 2\<rparr> = Inl AlreadyCancelled"
  by (simp add: reload_def set_all_timers_def cancel_def time_time_def set_timer_def)

section \<open>Properties of the topic plugin\<close>

lemma callback_ok:
  assumes "d < length ds" and "d_state (ds ! d) = Waiting"
    and "\<And>c. d_cancels (ds ! d) = Some c \<Longrightarrow> c < length cs \<and> snd (cs ! c) = Pending"
  shows "callback t d (ds, cs) =
     Inr (ds[d := (ds ! d)\<lparr>d_state := Fired t\<rparr>],
          (case d_cancels (ds ! d) of None \<Rightarrow> cs | Some c \<Rightarrow> cs[c := (fst (cs ! c), Cancelled)]))"
  using assms by (auto simp: callback_def split: option.splits)

lemma waiting_ok_state:
  "waiting_ok waiting ds cs \<Longrightarrow> d \<in> set waiting \<Longrightarrow>
   d < length ds \<and> d_state (ds ! d) = Waiting"
  unfolding waiting_ok_def by blast

lemma waiting_ok_cancels:
  "waiting_ok waiting ds cs \<Longrightarrow> d \<in> set waiting \<Longrightarrow> d_cancels (ds ! d) = Some c \<Longrightarrow>
   c < length cs \<and> snd (cs ! c) = Pending"
  unfolding waiting_ok_def by blast

lemma waiting_ok_unique:
  "waiting_ok waiting ds cs \<Longrightarrow> d \<in> set waiting \<Longrightarrow> d' \<in> set waiting \<Longrightarrow>
   d_cancels (ds ! d) = Some c \<Longrightarrow> d_cancels (ds ! d') = Some c \<Longrightarrow> d' = d"
  unfolding waiting_ok_def by blast

lemma waiting_ok_distinct: "waiting_ok waiting ds cs \<Longrightarrow> distinct waiting"
  unfolding waiting_ok_def by blast

lemma callback_each_ok:
  "waiting_ok waiting ds cs \<Longrightarrow>
   \<exists>ds' cs'. callback_each t waiting (ds, cs) = Inr (ds', cs') \<and>
      length ds' = length ds \<and> length cs' = length cs \<and>
      (\<forall>d \<in> set waiting. d_state (ds' ! d) = Fired t) \<and>
      (\<forall>d < length ds. d \<notin> set waiting \<longrightarrow> ds' ! d = ds ! d) \<and>
      (\<forall>d < length ds. d_cancels (ds' ! d) = d_cancels (ds ! d)) \<and>
      (\<forall>c < length cs. fst (cs' ! c) = fst (cs ! c)) \<and>
      (\<forall>c < length cs. (\<forall>d \<in> set waiting. d_cancels (ds ! d) \<noteq> Some c) \<longrightarrow> cs' ! c = cs ! c) \<and>
      (\<forall>d \<in> set waiting. \<forall>c. d_cancels (ds ! d) = Some c \<longrightarrow> snd (cs' ! c) = Cancelled)"
proof (induction waiting arbitrary: ds cs)
  case Nil
  then show ?case by simp
next
  case (Cons d waiting)
  let ?ds = "ds[d := (ds ! d)\<lparr>d_state := Fired t\<rparr>]"
  let ?cs = "(case d_cancels (ds ! d) of None \<Rightarrow> cs | Some c \<Rightarrow> cs[c := (fst (cs ! c), Cancelled)])"
  note ok = Cons.prems
  have dm: "d \<in> set (d # waiting)" by simp
  from waiting_ok_state[OF ok dm] have d: "d < length ds" "d_state (ds ! d) = Waiting"
    by simp_all
  from waiting_ok_distinct[OF ok] have dd: "d \<notin> set waiting" "distinct waiting"
    by simp_all
  have c: "c < length cs \<and> snd (cs ! c) = Pending" if "d_cancels (ds ! d) = Some c" for c
    by (rule waiting_ok_cancels[OF ok dm that])
  have u: "d_cancels (ds ! d') \<noteq> Some c"
    if "d_cancels (ds ! d) = Some c" "d' \<in> set waiting" for c d'
  proof
    assume "d_cancels (ds ! d') = Some c"
    from waiting_ok_unique[OF ok dm _ that(1) this] that(2) have "d' = d" by simp
    with that(2) dd(1) show False by simp
  qed
  have rest1: "d' < length ds \<and> d_state (ds ! d') = Waiting" if "d' \<in> set waiting" for d'
    using waiting_ok_state[OF ok, of d'] that by simp
  have rest2: "c < length cs \<and> snd (cs ! c) = Pending"
    if "d' \<in> set waiting" "d_cancels (ds ! d') = Some c" for d' c
    using waiting_ok_cancels[OF ok, of d' c] that by simp
  have rest3: "d'' = d'"
    if "d' \<in> set waiting" "d'' \<in> set waiting" "d_cancels (ds ! d') = Some c"
      "d_cancels (ds ! d'') = Some c" for d' d'' c
    using waiting_ok_unique[OF ok, of d' d'' c] that by simp
  have 1: "callback t d (ds, cs) = Inr (?ds, ?cs)"
    by (rule callback_ok[OF d c])
  have lcs: "length ?cs = length cs" by (simp split: option.splits)
  have keep: "?ds ! d' = ds ! d'" if "d' \<in> set waiting" for d'
  proof -
    from that dd(1) have "d \<noteq> d'" by blast
    then show ?thesis by simp
  qed
  have keepc: "snd (?cs ! c') = Pending \<and> c' < length ?cs"
    if "d' \<in> set waiting" "d_cancels (ds ! d') = Some c'" for d' c'
  proof -
    from rest2[OF that] have p: "c' < length cs" "snd (cs ! c') = Pending" by auto
    show ?thesis
    proof (cases "d_cancels (ds ! d)")
      case None
      with p show ?thesis by simp
    next
      case (Some c0)
      from u[OF Some that(1)] that(2) have "c0 \<noteq> c'" by auto
      with Some p show ?thesis by simp
    qed
  qed
  have ok': "waiting_ok waiting ?ds ?cs"
    unfolding waiting_ok_def
  proof (intro conjI ballI allI impI)
    show "distinct waiting" by (rule dd(2))
  next
    fix d' assume "d' \<in> set waiting"
    with rest1[OF this] show "d' < length ?ds" by simp
  next
    fix d' assume m: "d' \<in> set waiting"
    with rest1[OF this] keep[OF this] show "d_state (?ds ! d') = Waiting" by simp
  next
    fix d' c' assume m: "d' \<in> set waiting" and "d_cancels (?ds ! d') = Some c'"
    then have k: "d_cancels (ds ! d') = Some c'" using keep[OF m] by simp
    from keepc[OF m k] show "c' < length ?cs" by simp
  next
    fix d' c' assume m: "d' \<in> set waiting" and "d_cancels (?ds ! d') = Some c'"
    then have k: "d_cancels (ds ! d') = Some c'" using keep[OF m] by simp
    from keepc[OF m k] show "snd (?cs ! c') = Pending" by simp
  next
    fix d' c' d'' assume m: "d' \<in> set waiting" and "d_cancels (?ds ! d') = Some c'"
      and m': "d'' \<in> set waiting" and "d_cancels (?ds ! d'') = Some c'"
    then have "d_cancels (ds ! d') = Some c'" "d_cancels (ds ! d'') = Some c'"
      using keep[OF m] keep[OF m'] by simp_all
    with rest3[OF m m'] show "d'' = d'" by blast
  qed
  from Cons.IH[OF ok'] obtain ds' cs' where
    2: "callback_each t waiting (?ds, ?cs) = Inr (ds', cs')"
    and 3: "length ds' = length ?ds" "length cs' = length ?cs"
    and 4: "\<forall>d' \<in> set waiting. d_state (ds' ! d') = Fired t"
    and 5: "\<forall>d' < length ?ds. d' \<notin> set waiting \<longrightarrow> ds' ! d' = ?ds ! d'"
    and 6: "\<forall>d' < length ?ds. d_cancels (ds' ! d') = d_cancels (?ds ! d')"
    and 7: "\<forall>c < length ?cs. fst (cs' ! c) = fst (?cs ! c)"
    and 8: "\<forall>c < length ?cs. (\<forall>d' \<in> set waiting. d_cancels (?ds ! d') \<noteq> Some c) \<longrightarrow> cs' ! c = ?cs ! c"
    and 9: "\<forall>d' \<in> set waiting. \<forall>c. d_cancels (?ds ! d') = Some c \<longrightarrow> snd (cs' ! c) = Cancelled"
    by blast
  have r: "callback_each t (d # waiting) (ds, cs) = Inr (ds', cs')"
    using 1 2 by simp
  have a: "length ds' = length ds" "length cs' = length cs" using 3 lcs by simp_all
  have b: "\<forall>d' \<in> set (d # waiting). d_state (ds' ! d') = Fired t"
    using 4 5 d dd by auto
  have e: "\<forall>d' < length ds. d' \<notin> set (d # waiting) \<longrightarrow> ds' ! d' = ds ! d'"
    using 5 by auto
  have f: "\<forall>d' < length ds. d_cancels (ds' ! d') = d_cancels (ds ! d')"
  proof (intro allI impI)
    fix d' assume lt: "d' < length ds"
    have "d_cancels (?ds ! d') = d_cancels (ds ! d')"
      using d(1) by (cases "d' = d") (simp_all add: lt)
    with 6 lt show "d_cancels (ds' ! d') = d_cancels (ds ! d')" by simp
  qed
  have g: "\<forall>c < length cs. fst (cs' ! c) = fst (cs ! c)"
  proof (intro allI impI)
    fix c' assume lt: "c' < length cs"
    have "fst (?cs ! c') = fst (cs ! c')"
    proof (cases "d_cancels (ds ! d)")
      case None
      then show ?thesis by simp
    next
      case (Some c0)
      then show ?thesis using lt by (cases "c' = c0") simp_all
    qed
    with 7 lt lcs show "fst (cs' ! c') = fst (cs ! c')" by simp
  qed
  have h: "\<forall>c < length cs. (\<forall>d' \<in> set (d # waiting). d_cancels (ds ! d') \<noteq> Some c) \<longrightarrow>
      cs' ! c = cs ! c"
  proof (intro allI impI)
    fix c assume lt: "c < length cs"
      and n: "\<forall>d' \<in> set (d # waiting). d_cancels (ds ! d') \<noteq> Some c"
    then have "\<forall>d' \<in> set waiting. d_cancels (?ds ! d') \<noteq> Some c"
      using keep by auto
    with 8 lt lcs have "cs' ! c = ?cs ! c" by auto
    moreover have "?cs ! c = cs ! c"
      using n by (auto split: option.splits)
    ultimately show "cs' ! c = cs ! c" by simp
  qed
  have i: "\<forall>d' \<in> set (d # waiting). \<forall>c. d_cancels (ds ! d') = Some c \<longrightarrow> snd (cs' ! c) = Cancelled"
  proof (intro ballI allI impI)
    fix d' c assume m: "d' \<in> set (d # waiting)" and k: "d_cancels (ds ! d') = Some c"
    show "snd (cs' ! c) = Cancelled"
    proof (cases "d' = d")
      case True
      with k have k0: "d_cancels (ds ! d) = Some c" by simp
      from c[OF k0] have lt: "c < length cs" by simp
      have "\<forall>d'' \<in> set waiting. d_cancels (?ds ! d'') \<noteq> Some c"
        using u[OF k0] keep by auto
      with 8 lt lcs have "cs' ! c = ?cs ! c" by auto
      with k0 lt show ?thesis by simp
    next
      case False
      with m have m': "d' \<in> set waiting" by simp
      with 9 k keep[OF m'] show ?thesis by auto
    qed
  qed
  from r a b e f g h i show ?case by blast
qed

subsection \<open>A topic event resolves every waiter\<close>


lemma get_current_topic_asks:
  assumes "topic_stack s channel = []"
  shows "get_current_topic channel s =
     (Asked (length (deferreds s)),
      s\<lparr>topic_requests := topic_requests s @ [channel],
        timeouts := (if topic_waiters s channel = [] then timeouts s @ [(channel, Pending)]
                     else timeouts s),
        deferreds := deferreds s @
          [\<lparr>d_state = Waiting,
            d_cancels = (if topic_waiters s channel = [] then Some (length (timeouts s))
                         else None)\<rparr>],
        topic_waiters := (topic_waiters s)
          (channel := topic_waiters s channel @ [length (deferreds s)])\<rparr>)"
  using assms by (simp add: get_current_topic_def Let_def)

lemma waiting_ok_add:
  assumes ok: "waiting_ok waiting ds cs"
  shows "waiting_ok (waiting @ [length ds])
           (ds @ [\<lparr>d_state = Waiting,
                   d_cancels = (if waiting = [] then Some (length cs) else None)\<rparr>])
           (if waiting = [] then cs @ [(channel, Pending)] else cs)"
proof (cases "waiting = []")
  case True
  then show ?thesis by (simp add: waiting_ok_def)
next
  case False
  have lt: "d < length ds" if "d \<in> set waiting" for d
    using waiting_ok_state[OF ok that] by simp
  have fresh: "length ds \<notin> set waiting" using lt by blast
  let ?new = "\<lparr>d_state = Waiting, d_cancels = None\<rparr>"
  have nth: "(ds @ [?new]) ! d = ds ! d" if "d \<in> set waiting" for d
    using lt[OF that] by (simp add: nth_append)
  have "waiting_ok (waiting @ [length ds]) (ds @ [?new]) cs"
    unfolding waiting_ok_def
  proof (intro conjI ballI allI impI)
    show "distinct (waiting @ [length ds])"
      using waiting_ok_distinct[OF ok] fresh by simp
  next
    fix d assume "d \<in> set (waiting @ [length ds])"
    then show "d < length (ds @ [?new])" using lt[of d] by (auto simp: less_Suc_eq)
  next
    fix d assume "d \<in> set (waiting @ [length ds])"
    then show "d_state ((ds @ [?new]) ! d) = Waiting"
      using waiting_ok_state[OF ok, of d] by (auto simp: nth_append)
  next
    fix d c assume m: "d \<in> set (waiting @ [length ds])"
      and k: "d_cancels ((ds @ [?new]) ! d) = Some c"
    then have m': "d \<in> set waiting" by (auto simp: nth_append split: if_splits)
    with k nth[OF m'] have "d_cancels (ds ! d) = Some c" by simp
    from waiting_ok_cancels[OF ok m' this] show "c < length cs" by simp
  next
    fix d c assume m: "d \<in> set (waiting @ [length ds])"
      and k: "d_cancels ((ds @ [?new]) ! d) = Some c"
    then have m': "d \<in> set waiting" by (auto simp: nth_append split: if_splits)
    with k nth[OF m'] have "d_cancels (ds ! d) = Some c" by simp
    from waiting_ok_cancels[OF ok m' this] show "snd (cs ! c) = Pending" by simp
  next
    fix d c d' assume m: "d \<in> set (waiting @ [length ds])"
      and k: "d_cancels ((ds @ [?new]) ! d) = Some c"
      and n: "d' \<in> set (waiting @ [length ds])"
      and k': "d_cancels ((ds @ [?new]) ! d') = Some c"
    from m k have m': "d \<in> set waiting" by (auto simp: nth_append split: if_splits)
    from n k' have n': "d' \<in> set waiting" by (auto simp: nth_append split: if_splits)
    from k nth[OF m'] have a: "d_cancels (ds ! d) = Some c" by simp
    from k' nth[OF n'] have b: "d_cancels (ds ! d') = Some c" by simp
    from waiting_ok_unique[OF ok m' n' a b] show "d' = d" .
  qed
  with False show ?thesis by simp
qed




subsection \<open>Several callers waiting for the topic\<close>






subsection \<open>Topic positions out of range\<close>

lemma split_on_nonempty: "split_on sep s \<noteq> []"
  by (induction s) (auto split: list.splits)

text \<open>
  Claim C7 as it is stated fails. \<open>topicinsert\<close> uses \<open>list.insert\<close>, which takes any
  position: position 5 in a topic of two parts appends the text, and the request is
  made. \<open>topicreplace\<close> and \<open>topicremove\<close> index the list as Python does, so position
  \<open>-1\<close> is the last part.
\<close>

theorem topic_position_counterexample:
  "topicinsert accepting ''#a'' 5 ''X'' ''a | b'' = [Issue (TopicRequest ''#a'' ''a | b | X'')] \<and>
   topicreplace accepting ''#a'' (- 1) ''X'' ''a | b'' = [Issue (TopicRequest ''#a'' ''a | X'')] \<and>
   topicremove accepting ''#a'' (- 1) ''a | b'' = [Issue (TopicRequest ''#a'' ''a'')]"
  by (simp add: topicinsert_def topicreplace_def topicremove_def set_topic_def accepting_def
      list_insert_def list_delete_def py_index_def strip_def is_space_def Let_def)

text \<open>
  Claim C7, amended, for \<open>topicreplace\<close> and \<open>topicremove\<close>. The topic has
  \<open>n \<ge> 1\<close> parts, one more than it has separators. A position \<open>pos \<ge> n\<close> or
  \<open>pos < -n\<close> is answered with \<open>There are only n topic parts. Remember indexes start
  at 0\<close> and nothing else: no request is made. Every other position is applied, the
  negative ones counted from the end, and the request is made.
\<close>

theorem replace_remove_out_of_range:
  fixes currenttopic :: string
  defines "parts \<equiv> map strip (split_on CHR ''|'' currenttopic)"
  shows "1 \<le> length parts \<and>
     (int (length parts) \<le> pos \<or> pos < - int (length parts) \<longrightarrow>
        topicreplace tr channel pos newtext currenttopic =
          [Reply (''There are only '' @ str_of_nat (length parts)
                  @ '' topic parts. Remember indexes start at 0'')] \<and>
        topicremove tr channel pos currenttopic =
          [Reply (''There are only '' @ str_of_nat (length parts)
                  @ '' topic parts. Remember indexes start at 0'')]) \<and>
     (0 \<le> pos \<and> pos < int (length parts) \<longrightarrow>
        topicreplace tr channel pos newtext currenttopic =
          set_topic tr channel (join_bar (parts[nat pos := newtext])) \<and>
        topicremove tr channel pos currenttopic =
          set_topic tr channel (join_bar (take (nat pos) parts @ drop (Suc (nat pos)) parts))) \<and>
     (- int (length parts) \<le> pos \<and> pos < 0 \<longrightarrow>
        topicreplace tr channel pos newtext currenttopic =
          set_topic tr channel (join_bar (parts[nat (int (length parts) + pos) := newtext])) \<and>
        topicremove tr channel pos currenttopic =
          set_topic tr channel
            (join_bar (take (nat (int (length parts) + pos)) parts
                       @ drop (Suc (nat (int (length parts) + pos))) parts))) \<and>
     (\<forall>topic. \<exists>more. set_topic tr channel topic = Issue (TopicRequest channel topic) # more)"
proof -
  have n: "1 \<le> length parts"
    using split_on_nonempty[of "CHR ''|''" currenttopic]
    by (cases "split_on CHR ''|'' currenttopic") (simp_all add: parts_def)
  have out: "py_index (length parts) pos = None"
    if "int (length parts) \<le> pos \<or> pos < - int (length parts)"
    using that by (auto simp: py_index_def)
  have pos: "py_index (length parts) pos = Some (nat pos)"
    if "0 \<le> pos \<and> pos < int (length parts)"
    using that by (simp add: py_index_def)
  have neg: "py_index (length parts) pos = Some (nat (int (length parts) + pos))"
    if "- int (length parts) \<le> pos \<and> pos < 0"
    using that by (simp add: py_index_def)
  have st: "\<exists>more. set_topic tr channel topic = Issue (TopicRequest channel topic) # more"
    for topic
    by (simp add: set_topic_def split: option.splits exc.splits)
  show ?thesis
    using n out pos neg st
    by (simp add: topicreplace_def topicremove_def only_parts_def list_delete_def Let_def
        parts_def[symmetric])
qed

theorem replace_remove_out_of_range_witness:
  "topicremove (\<lambda>rq. None) ''#a'' 5 ''a | b | c'' =
     [Reply ''There are only 3 topic parts. Remember indexes start at 0''] \<and>
   topicreplace (\<lambda>rq. None) ''#a'' (- 4) ''X'' ''a | b | c'' =
     [Reply ''There are only 3 topic parts. Remember indexes start at 0''] \<and>
   topicreplace (\<lambda>rq. None) ''#a'' 1 ''X'' ''a | b | c'' =
     [Issue (TopicRequest ''#a'' ''a | X | c'')]"
proof -
  have p: "map strip (split_on CHR ''|'' ''a | b | c'') = [''a'', ''b'', ''c'']"
    by (simp add: strip_def is_space_def)
  have n: "str_of_nat (Suc (Suc (Suc 0))) = ''3''" by code_simp
  from replace_remove_out_of_range[where pos = 5 and tr = "\<lambda>rq. None" and channel = "''#a''"
      and newtext = "''X''" and currenttopic = "''a | b | c''"]
  have 1: "topicremove (\<lambda>rq. None) ''#a'' 5 ''a | b | c'' =
     [Reply ''There are only 3 topic parts. Remember indexes start at 0'']"
    unfolding p by (simp add: n)
  from replace_remove_out_of_range[where pos = "- 4" and tr = "\<lambda>rq. None" and channel = "''#a''"
      and newtext = "''X''" and currenttopic = "''a | b | c''"]
  have 2: "topicreplace (\<lambda>rq. None) ''#a'' (- 4) ''X'' ''a | b | c'' =
     [Reply ''There are only 3 topic parts. Remember indexes start at 0'']"
    unfolding p by (simp add: n)
  from replace_remove_out_of_range[where pos = 1 and tr = "\<lambda>rq. None" and channel = "''#a''"
      and newtext = "''X''" and currenttopic = "''a | b | c''"]
  have 3: "topicreplace (\<lambda>rq. None) ''#a'' 1 ''X'' ''a | b | c'' =
     [Issue (TopicRequest ''#a'' ''a | X | c'')]"
    unfolding p by (simp add: set_topic_def)
  from 1 2 3 show ?thesis by simp
qed

section \<open>Properties of hostmasks, ban and quiet\<close>

lemma split_on_no_sep: "sep \<notin> set s \<Longrightarrow> split_on sep s = [s]"
  by (induction s) auto

lemma split_on_append:
  "split_on sep (xs @ sep # ys) = split_on sep xs @ split_on sep ys"
proof (induction xs)
  case Nil
  show ?case by simp
next
  case (Cons x xs)
  obtain p ps where s: "split_on sep xs = p # ps"
    using split_on_nonempty[of sep xs] by (cases "split_on sep xs") auto
  with Cons show ?case by simp
qed

lemma last_split_on_append:
  "last (split_on sep (xs @ sep # ys)) = last (split_on sep ys)"
  by (simp add: split_on_append split_on_nonempty)

lemma web_gateway_ip:
  assumes "CHR ''/'' \<notin> set ip"
  shows "drop 3 (last (split_on CHR ''/'' (''gateway/web/freenode/ip.'' @ ip))) = ip"
proof -
  have "''gateway/web/freenode/ip.'' @ ip = ''gateway/web/freenode'' @ CHR ''/'' # (''ip.'' @ ip)"
    by simp
  then have "last (split_on CHR ''/'' (''gateway/web/freenode/ip.'' @ ip)) =
      last (split_on CHR ''/'' (''ip.'' @ ip))"
    by (simp only: last_split_on_append)
  also have "\<dots> = ''ip.'' @ ip"
    using assms by (simp add: split_on_no_sep)
  finally show ?thesis by simp
qed

lemma startswith_shorter: "startswith h (p @ q) \<Longrightarrow> startswith h p"
proof -
  assume "startswith h (p @ q)"
  then have a: "take (length (p @ q)) h = p @ q" by (simp add: startswith_def)
  have "take (length p) h = take (length p) (take (length (p @ q)) h)" by simp
  also have "\<dots> = p" unfolding a by simp
  finally show ?thesis by (simp add: startswith_def)
qed

lemma gateway_prefix:
  "startswith h ''gateway/web/freenode/ip.'' \<Longrightarrow> startswith h ''gateway/''"
  using startswith_shorter[of h "''gateway/''" "''web/freenode/ip.''"] by simp

subsection \<open>From a nick to a hostmask\<close>

text \<open>
  Claim C8. \<open>_nick_to_hostmask\<close> returns its argument when it holds both \<open>!\<close> and \<open>@\<close> or
  starts with \<open>$\<close>. Otherwise it asks whois; a failed whois fails the call. For a host
  that starts with \<open>gateway/web/freenode/ip.\<close> the mask is \<open>*!*@\<close> and the last
  \<open>/\<close>-part of the host without its first three characters, which is the address for
  a host \<open>gateway/web/freenode/ip.<address>\<close>. For another host that starts with
  \<open>gateway/\<close> the mask is \<open>*!<user>@gateway/*\<close>. For every other host it is
  \<open>*!*@<host>\<close>; for \<open>(bob, bobby, unaffiliated/bob)\<close> this is \<open>*!*@unaffiliated/bob\<close>.
\<close>

theorem nick_to_hostmask_masks:
  "((CHR ''!'' \<in> set nick \<and> CHR ''@'' \<in> set nick) \<or> startswith nick ''$'' \<longrightarrow>
      nick_to_hostmask who nick = Inr nick) \<and>
   (\<not> ((CHR ''!'' \<in> set nick \<and> CHR ''@'' \<in> set nick) \<or> startswith nick ''$'') \<longrightarrow>
      (\<forall>e. who nick = Inl e \<longrightarrow> nick_to_hostmask who nick = Inl e) \<and>
      (\<forall>n u h. who nick = Inr (n, u, h) \<longrightarrow>
         (startswith h ''gateway/web/freenode/ip.'' \<longrightarrow>
            nick_to_hostmask who nick = Inr (''*!*@'' @ drop 3 (last (split_on CHR ''/'' h)))) \<and>
         (\<forall>ip. h = ''gateway/web/freenode/ip.'' @ ip \<and> CHR ''/'' \<notin> set ip \<longrightarrow>
            nick_to_hostmask who nick = Inr (''*!*@'' @ ip)) \<and>
         (startswith h ''gateway/'' \<and> \<not> startswith h ''gateway/web/freenode/ip.'' \<longrightarrow>
            nick_to_hostmask who nick = Inr (''*!'' @ u @ ''@gateway/*'')) \<and>
         (\<not> startswith h ''gateway/'' \<longrightarrow>
            nick_to_hostmask who nick = Inr (''*!*@'' @ h)))) \<and>
   nick_to_hostmask (\<lambda>nick. Inr (''bob'', ''bobby'', ''unaffiliated/bob'')) ''bob'' =
     Inr ''*!*@unaffiliated/bob''"
proof -
  have 1: "nick_to_hostmask who nick = Inr nick"
    if "(CHR ''!'' \<in> set nick \<and> CHR ''@'' \<in> set nick) \<or> startswith nick ''$''"
    using that by (auto simp: nick_to_hostmask_def)
  have 2: "nick_to_hostmask who nick = Inl e"
    if "\<not> ((CHR ''!'' \<in> set nick \<and> CHR ''@'' \<in> set nick) \<or> startswith nick ''$'')"
      and "who nick = Inl e" for e
    using that by (auto simp: nick_to_hostmask_def)
  have 3: "nick_to_hostmask who nick = Inr (''*!*@'' @ drop 3 (last (split_on CHR ''/'' h)))"
    if "\<not> ((CHR ''!'' \<in> set nick \<and> CHR ''@'' \<in> set nick) \<or> startswith nick ''$'')"
      and "who nick = Inr (n, u, h)" and "startswith h ''gateway/web/freenode/ip.''" for n u h
    using that by (auto simp: nick_to_hostmask_def)
  have 4: "nick_to_hostmask who nick = Inr (''*!*@'' @ ip)"
    if a: "\<not> ((CHR ''!'' \<in> set nick \<and> CHR ''@'' \<in> set nick) \<or> startswith nick ''$'')"
      and b: "who nick = Inr (n, u, h)" and c: "h = ''gateway/web/freenode/ip.'' @ ip"
      and d: "CHR ''/'' \<notin> set ip" for n u h ip
  proof -
    have "startswith h ''gateway/web/freenode/ip.''" by (simp add: c startswith_def)
    from 3[OF a b this] show ?thesis unfolding c web_gateway_ip[OF d] .
  qed
  have 5: "nick_to_hostmask who nick = Inr (''*!'' @ u @ ''@gateway/*'')"
    if "\<not> ((CHR ''!'' \<in> set nick \<and> CHR ''@'' \<in> set nick) \<or> startswith nick ''$'')"
      and "who nick = Inr (n, u, h)" and "startswith h ''gateway/''"
      and "\<not> startswith h ''gateway/web/freenode/ip.''" for n u h
    using that by (auto simp: nick_to_hostmask_def)
  have 6: "nick_to_hostmask who nick = Inr (''*!*@'' @ h)"
    if "\<not> ((CHR ''!'' \<in> set nick \<and> CHR ''@'' \<in> set nick) \<or> startswith nick ''$'')"
      and "who nick = Inr (n, u, h)" and "\<not> startswith h ''gateway/''" for n u h
    using that gateway_prefix[of h] by (auto simp: nick_to_hostmask_def)
  have 7: "nick_to_hostmask (\<lambda>nick. Inr (''bob'', ''bobby'', ''unaffiliated/bob'')) ''bob'' =
     Inr ''*!*@unaffiliated/bob''"
    by (simp add: nick_to_hostmask_def startswith_def)
  from 1 2 3 4 5 6 7 show ?thesis by blast
qed

theorem nick_to_hostmask_masks_witness:
  "nick_to_hostmask (\<lambda>nick. Inl NoSuchNick) ''bob!*@*'' = Inr ''bob!*@*'' \<and>
   nick_to_hostmask (\<lambda>nick. Inl NoSuchNick) ''bob'' = Inl NoSuchNick \<and>
   nick_to_hostmask (\<lambda>nick. Inr (''bob'', ''bobby'', ''gateway/web/freenode/ip.10.1.2.3'')) ''bob''
     = Inr ''*!*@10.1.2.3'' \<and>
   nick_to_hostmask (\<lambda>nick. Inr (''bob'', ''bobby'', ''gateway/tor-sasl/bob'')) ''bob''
     = Inr ''*!bobby@gateway/*''"
proof -
  from nick_to_hostmask_masks[of "''bob!*@*''" "\<lambda>nick. Inl NoSuchNick"]
  have 1: "nick_to_hostmask (\<lambda>nick. Inl NoSuchNick) ''bob!*@*'' = Inr ''bob!*@*''"
    by simp
  from nick_to_hostmask_masks[of "''bob''" "\<lambda>nick. Inl NoSuchNick"]
  have 2: "nick_to_hostmask (\<lambda>nick. Inl NoSuchNick) ''bob'' = Inl NoSuchNick"
    by (simp add: startswith_def)
  from nick_to_hostmask_masks[of "''bob''"
      "\<lambda>nick. Inr (''bob'', ''bobby'', ''gateway/web/freenode/ip.10.1.2.3'')"]
  have 3: "nick_to_hostmask
      (\<lambda>nick. Inr (''bob'', ''bobby'', ''gateway/web/freenode/ip.10.1.2.3'')) ''bob''
     = Inr ''*!*@10.1.2.3''"
    by (simp add: startswith_def)
  from nick_to_hostmask_masks[of "''bob''"
      "\<lambda>nick. Inr (''bob'', ''bobby'', ''gateway/tor-sasl/bob'')"]
  have 4: "nick_to_hostmask (\<lambda>nick. Inr (''bob'', ''bobby'', ''gateway/tor-sasl/bob'')) ''bob''
     = Inr ''*!bobby@gateway/*''"
    by (simp add: startswith_def)
  from 1 2 3 4 show ?thesis by simp
qed

subsection \<open>A duration that does not parse\<close>

lemma parse_time_fails:
  "cal t = None \<Longrightarrow>
   parse_time cal clk t s = Inl (ValueError ''I don't understand when you want me to do that'')"
  by (simp add: parse_time_def)

lemma do_moderequest_ban_sends:
  "\<exists>raised s'. do_moderequest tr clk channel ''b'' hostmask duration s =
     ([Issue (OpRequest ''ircop.ban'' channel hostmask)], raised, s')"
  by (simp add: do_moderequest_def Let_def split: option.splits sum.splits)

text \<open>
  Claim C9 as it is stated fails for \<open>quiet\<close>: a duration that does not parse is
  answered with the text of the \<open>ValueError\<close>, and the command returns; no request is
  sent.
\<close>

theorem quiet_stops_on_unparsed_duration:
  "quiet no_calendar whois_bob accepting
     example_clock ''#a'' ''bob'' (Some ''for being rude'')
     \<lparr>started = True, later_timers = [], laters = [], config_file = None,
      defaulttime = None, reactor = [], ticks = 0\<rparr> =
   ([Reply ''I don't understand when you want me to do that''], None,
    \<lparr>started = True, later_timers = [], laters = [], config_file = None,
      defaulttime = None, reactor = [], ticks = 0\<rparr>)"
  by (simp add: quiet_def parse_time_def no_calendar_def)

text \<open>
  Claim C9, amended. Let the text after the target be not empty and not a time for the
  calendar. \<open>quiet\<close> replies with the parse error and does nothing else. \<open>ban\<close> goes on:
  for a target with \<open>!\<close> and \<open>@\<close> and without \<open>$\<close> it sends the ban of the target, and
  when the nick part has no \<open>*\<close> also the kick of that nick with the text as its
  reason; for a target without \<open>!\<close>, \<open>@\<close> and \<open>$\<close> that whois resolves it sends the ban
  of the resolved mask and the kick of the target with the text as its reason.
\<close>

theorem ban_goes_on_with_unparsed_duration:
  assumes "cal t = None" and "t \<noteq> []"
  shows "quiet cal who tr clk channel target (Some t) s =
       ([Reply ''I don't understand when you want me to do that''], None, s) \<and>
     (CHR ''@'' \<in> set target \<and> CHR ''!'' \<in> set target \<and> CHR ''$'' \<notin> set target \<longrightarrow>
        (\<exists>more raised s'.
           ban cal who tr clk user channel target (Some t) s =
             (Issue (OpRequest ''ircop.ban'' channel target) # more, raised, s') \<and>
           (CHR ''*'' \<notin> set (hd (split_on CHR ''!'' target)) \<longrightarrow>
              (\<exists>more'. more =
                 Issue (KickRequest channel (hd (split_on CHR ''!'' target)) t) # more')))) \<and>
     (CHR ''@'' \<notin> set target \<and> CHR ''!'' \<notin> set target \<and> CHR ''$'' \<notin> set target \<longrightarrow>
        (\<forall>hostmask. nick_to_hostmask who target = Inr hostmask \<longrightarrow>
           (\<exists>more raised s'.
              ban cal who tr clk user channel target (Some t) s =
                (Issue (OpRequest ''ircop.ban'' channel hostmask)
                 # Issue (KickRequest channel target t) # more, raised, s'))))"
proof -
  have p: "parse_time cal clk t s =
      Inl (ValueError ''I don't understand when you want me to do that'')"
    using assms(1) by (rule parse_time_fails)
  have q: "quiet cal who tr clk channel target (Some t) s =
       ([Reply ''I don't understand when you want me to do that''], None, s)"
    using assms(2) by (simp add: quiet_def p)
  have mask: "\<exists>more raised s'.
           ban cal who tr clk user channel target (Some t) s =
             (Issue (OpRequest ''ircop.ban'' channel target) # more, raised, s') \<and>
           (CHR ''*'' \<notin> set (hd (split_on CHR ''!'' target)) \<longrightarrow>
              (\<exists>more'. more =
                 Issue (KickRequest channel (hd (split_on CHR ''!'' target)) t) # more'))"
    if m: "CHR ''@'' \<in> set target \<and> CHR ''!'' \<in> set target \<and> CHR ''$'' \<notin> set target"
  proof -
    obtain raised s' where d: "do_moderequest tr clk channel ''b'' target (or_defaulttime None s) s =
       ([Issue (OpRequest ''ircop.ban'' channel target)], raised, s')"
      using do_moderequest_ban_sends by blast
    show ?thesis
      using assms(2) m d
      by (simp add: ban_def p Let_def split: option.splits exc.splits)
  qed
  have nick: "\<exists>more raised s'.
              ban cal who tr clk user channel target (Some t) s =
                (Issue (OpRequest ''ircop.ban'' channel hostmask)
                 # Issue (KickRequest channel target t) # more, raised, s')"
    if m: "CHR ''@'' \<notin> set target \<and> CHR ''!'' \<notin> set target \<and> CHR ''$'' \<notin> set target"
      and h: "nick_to_hostmask who target = Inr hostmask" for hostmask
  proof -
    obtain raised s' where d: "do_moderequest tr clk channel ''b'' hostmask (or_defaulttime None s) s =
       ([Issue (OpRequest ''ircop.ban'' channel hostmask)], raised, s')"
      using do_moderequest_ban_sends by blast
    show ?thesis
      using assms(2) m d h
      by (simp add: ban_def p Let_def split: option.splits exc.splits)
  qed
  from q mask nick show ?thesis by blast
qed

theorem ban_goes_on_with_unparsed_duration_witness:
  "(\<lambda>t. None :: real option) ''for being rude'' = None \<and> ''for being rude'' \<noteq> [] \<and>
   quiet (\<lambda>t. None) (\<lambda>nick. Inr (''bob'', ''bobby'', ''unaffiliated/bob'')) (\<lambda>rq. None)
     (\<lambda>n. 100) ''#a'' ''bob'' (Some ''for being rude'')
     \<lparr>started = True, later_timers = [], laters = [], config_file = None,
      defaulttime = None, reactor = [], ticks = 0\<rparr> =
     ([Reply ''I don't understand when you want me to do that''], None,
      \<lparr>started = True, later_timers = [], laters = [], config_file = None,
       defaulttime = None, reactor = [], ticks = 0\<rparr>) \<and>
   (\<exists>more raised s'.
      ban (\<lambda>t. None) (\<lambda>nick. Inr (''bob'', ''bobby'', ''unaffiliated/bob'')) (\<lambda>rq. None)
        (\<lambda>n. 100) ''op!o@example.org'' ''#a'' ''bob'' (Some ''for being rude'')
        \<lparr>started = True, later_timers = [], laters = [], config_file = None,
         defaulttime = None, reactor = [], ticks = 0\<rparr> =
      (Issue (OpRequest ''ircop.ban'' ''#a'' ''*!*@unaffiliated/bob'')
       # Issue (KickRequest ''#a'' ''bob'' ''for being rude'') # more, raised, s'))"
proof -
  let ?cal = "\<lambda>t::string. None :: real option"
  let ?who = "\<lambda>nick::string. Inr (''bob'', ''bobby'', ''unaffiliated/bob'') :: exc + string \<times> string \<times> string"
  have a: "?cal ''for being rude'' = None" by simp
  have b: "''for being rude'' \<noteq> []" by simp
  have h: "nick_to_hostmask ?who ''bob'' = Inr ''*!*@unaffiliated/bob''"
    by (simp add: nick_to_hostmask_def startswith_def)
  have t: "CHR ''@'' \<notin> set ''bob'' \<and> CHR ''!'' \<notin> set ''bob'' \<and> CHR ''$'' \<notin> set ''bob''"
    by simp
  note th = ban_goes_on_with_unparsed_duration[OF a b, where who = ?who and tr = "\<lambda>rq. None"
      and clk = "\<lambda>n. 100" and channel = "''#a''" and target = "''bob''"
      and user = "''op!o@example.org''"
      and s = "\<lparr>started = True, later_timers = [], laters = [], config_file = None,
         defaulttime = None, reactor = [], ticks = 0\<rparr>"]
  from th have 1: "quiet ?cal ?who (\<lambda>rq. None) (\<lambda>n. 100) ''#a'' ''bob'' (Some ''for being rude'')
     \<lparr>started = True, later_timers = [], laters = [], config_file = None,
      defaulttime = None, reactor = [], ticks = 0\<rparr> =
     ([Reply ''I don't understand when you want me to do that''], None,
      \<lparr>started = True, later_timers = [], laters = [], config_file = None,
       defaulttime = None, reactor = [], ticks = 0\<rparr>)"
    by blast
  from th t h have 2: "\<exists>more raised s'.
      ban ?cal ?who (\<lambda>rq. None) (\<lambda>n. 100) ''op!o@example.org'' ''#a'' ''bob''
        (Some ''for being rude'')
        \<lparr>started = True, later_timers = [], laters = [], config_file = None,
         defaulttime = None, reactor = [], ticks = 0\<rparr> =
      (Issue (OpRequest ''ircop.ban'' ''#a'' ''*!*@unaffiliated/bob'')
       # Issue (KickRequest ''#a'' ''bob'' ''for being rude'') # more, raised, s')"
    by blast
  from a b 1 2 show ?thesis by blast
qed

subsection \<open>The waiters stay well-formed\<close>

lemma topic_ok_waiting: "topic_ok s \<Longrightarrow> waiting_ok (topic_waiters s channel) (deferreds s) (timeouts s)"
  unfolding topic_ok_def by blast

lemma topic_ok_one_channel:
  "topic_ok s \<Longrightarrow> d \<in> set (topic_waiters s channel) \<Longrightarrow> d \<in> set (topic_waiters s channel') \<Longrightarrow>
   channel = channel'"
  unfolding topic_ok_def by blast

lemma topic_ok_one_waiter:
  "topic_ok s \<Longrightarrow> d \<in> set (topic_waiters s channel) \<Longrightarrow> d' \<in> set (topic_waiters s channel') \<Longrightarrow>
   d_cancels (deferreds s ! d) = Some c \<Longrightarrow> d_cancels (deferreds s ! d') = Some c \<Longrightarrow> d = d'"
  unfolding topic_ok_def by blast

lemma waiting_ok_same:
  assumes ok: "waiting_ok waiting ds cs"
    and l: "length ds \<le> length ds'"
    and d: "\<And>d. d \<in> set waiting \<Longrightarrow> ds' ! d = ds ! d"
    and c: "\<And>d c. d \<in> set waiting \<Longrightarrow> d_cancels (ds ! d) = Some c \<Longrightarrow>
              c < length cs' \<and> snd (cs' ! c) = Pending"
  shows "waiting_ok waiting ds' cs'"
  unfolding waiting_ok_def
proof (intro conjI ballI allI impI)
  show "distinct waiting" by (rule waiting_ok_distinct[OF ok])
next
  fix x assume "x \<in> set waiting"
  from waiting_ok_state[OF ok this] l show "x < length ds'" by simp
next
  fix x assume m: "x \<in> set waiting"
  from waiting_ok_state[OF ok m] d[OF m] show "d_state (ds' ! x) = Waiting" by simp
next
  fix x k assume m: "x \<in> set waiting" and "d_cancels (ds' ! x) = Some k"
  then have "d_cancels (ds ! x) = Some k" using d[OF m] by simp
  from c[OF m this] show "k < length cs'" by simp
next
  fix x k assume m: "x \<in> set waiting" and "d_cancels (ds' ! x) = Some k"
  then have "d_cancels (ds ! x) = Some k" using d[OF m] by simp
  from c[OF m this] show "snd (cs' ! k) = Pending" by simp
next
  fix x k y assume m: "x \<in> set waiting" and a: "d_cancels (ds' ! x) = Some k"
    and n: "y \<in> set waiting" and b: "d_cancels (ds' ! y) = Some k"
  from a d[OF m] have a': "d_cancels (ds ! x) = Some k" by simp
  from b d[OF n] have b': "d_cancels (ds ! y) = Some k" by simp
  from waiting_ok_unique[OF ok m n a' b'] show "y = x" .
qed

lemma ask_keeps_topic_ok:
  assumes ok: "topic_ok s"
  shows "topic_ok (snd (get_current_topic channel s))"
proof (cases "topic_stack s channel = []")
  case False
  with ok show ?thesis by (simp add: get_current_topic_def)
next
  case True
  let ?n = "length (deferreds s)"
  let ?cb = "if topic_waiters s channel = [] then Some (length (timeouts s)) else None"
  let ?ds = "deferreds s @ [\<lparr>d_state = Waiting, d_cancels = ?cb\<rparr>]"
  let ?cs = "if topic_waiters s channel = [] then timeouts s @ [(channel, Pending)]
             else timeouts s"
  let ?ws = "(topic_waiters s)(channel := topic_waiters s channel @ [?n])"
  let ?s' = "s\<lparr>topic_requests := topic_requests s @ [channel], timeouts := ?cs,
               deferreds := ?ds, topic_waiters := ?ws\<rparr>"
  have res: "snd (get_current_topic channel s) = ?s'"
    by (simp add: get_current_topic_asks[OF True])
  have lt: "d < ?n" if "d \<in> set (topic_waiters s a)" for d a
    using waiting_ok_state[OF topic_ok_waiting[OF ok] that] by simp
  have old: "?ds ! d = deferreds s ! d" if "d \<in> set (topic_waiters s a)" for d a
    using lt[OF that] by (simp add: nth_append)
  have new: "d_cancels (?ds ! ?n) = ?cb" by simp
  have mem: "d \<in> set (topic_waiters s a) \<or> (a = channel \<and> d = ?n)" if "d \<in> set (?ws a)" for d a
    using that by (cases "a = channel") auto
  have clt: "c < length (timeouts s)"
    if "d \<in> set (topic_waiters s a)" "d_cancels (deferreds s ! d) = Some c" for d a c
    using waiting_ok_cancels[OF topic_ok_waiting[OF ok] that] by simp
  have 1: "waiting_ok (?ws a) ?ds ?cs" for a
  proof (cases "a = channel")
    case True
    with waiting_ok_add[OF topic_ok_waiting[OF ok, of channel], of channel]
    show ?thesis by simp
  next
    case False
    have "waiting_ok (topic_waiters s a) ?ds ?cs"
    proof (rule waiting_ok_same[OF topic_ok_waiting[OF ok, of a]])
      show "length (deferreds s) \<le> length ?ds" by simp
    next
      fix d assume "d \<in> set (topic_waiters s a)"
      then show "?ds ! d = deferreds s ! d" by (rule old)
    next
      fix d c assume m: "d \<in> set (topic_waiters s a)"
        and k: "d_cancels (deferreds s ! d) = Some c"
      from waiting_ok_cancels[OF topic_ok_waiting[OF ok] m k]
      show "c < length ?cs \<and> snd (?cs ! c) = Pending" by (simp add: nth_append)
    qed
    with False show ?thesis by simp
  qed
  have 2: "a = b" if "d \<in> set (?ws a)" "d \<in> set (?ws b)" for a b d
  proof (cases "d = ?n")
    case True
    from mem[OF that(1)] True lt[of d a] have "a = channel" by auto
    moreover from mem[OF that(2)] True lt[of d b] have "b = channel" by auto
    ultimately show ?thesis by simp
  next
    case False
    with mem[OF that(1)] mem[OF that(2)] topic_ok_one_channel[OF ok, of d a b]
    show ?thesis by blast
  qed
  have 3: "d = d'"
    if "d \<in> set (?ws a)" "d' \<in> set (?ws b)" "d_cancels (?ds ! d) = Some c"
      "d_cancels (?ds ! d') = Some c" for a b d d' c
  proof (cases "d = ?n")
    case dn: True
    show ?thesis
    proof (cases "d' = ?n")
      case True
      with dn show ?thesis by simp
    next
      case False
      with mem[OF that(2)] have m': "d' \<in> set (topic_waiters s b)" by blast
      from that(4) old[OF m'] have "d_cancels (deferreds s ! d') = Some c" by simp
      from clt[OF m' this] have "c < length (timeouts s)" .
      moreover from that(3) dn new have "c = length (timeouts s)"
        by (simp split: if_splits)
      ultimately show ?thesis by simp
    qed
  next
    case dn: False
    with mem[OF that(1)] have m: "d \<in> set (topic_waiters s a)" by blast
    from that(3) old[OF m] have k: "d_cancels (deferreds s ! d) = Some c" by simp
    show ?thesis
    proof (cases "d' = ?n")
      case True
      from clt[OF m k] have "c < length (timeouts s)" .
      moreover from that(4) True new have "c = length (timeouts s)"
        by (simp split: if_splits)
      ultimately show ?thesis by simp
    next
      case False
      with mem[OF that(2)] have m': "d' \<in> set (topic_waiters s b)" by blast
      from that(4) old[OF m'] have k': "d_cancels (deferreds s ! d') = Some c" by simp
      from topic_ok_one_waiter[OF ok m m' k k'] show ?thesis .
    qed
  qed
  have "topic_ok ?s'"
    unfolding topic_ok_def
  proof (intro conjI allI impI)
    fix a show "waiting_ok (topic_waiters ?s' a) (deferreds ?s') (timeouts ?s')"
      using 1[of a] by simp
  next
    fix a b d
    assume "d \<in> set (topic_waiters ?s' a) \<and> d \<in> set (topic_waiters ?s' b)"
    then have "d \<in> set (?ws a)" "d \<in> set (?ws b)" by simp_all
    then show "a = b" by (rule 2)
  next
    fix a b d d' c
    assume "d \<in> set (topic_waiters ?s' a) \<and> d' \<in> set (topic_waiters ?s' b) \<and>
        d_cancels (deferreds ?s' ! d) = Some c \<and> d_cancels (deferreds ?s' ! d') = Some c"
    then have "d \<in> set (?ws a)" "d' \<in> set (?ws b)" "d_cancels (?ds ! d) = Some c"
      "d_cancels (?ds ! d') = Some c" by simp_all
    then show "d = d'" by (rule 3)
  qed
  with res show ?thesis by simp
qed

lemma updated_keeps_topic_ok:
  assumes ok: "topic_ok s"
  shows "\<exists>s'. on_event_irc_on_topic_updated event s = Inr s' \<and> topic_ok s'"
proof -
  let ?ch = "te_channel event"
  let ?t = "te_newtopic event"
  let ?w = "topic_waiters s ?ch"
  from callback_each_ok[OF topic_ok_waiting[OF ok, of ?ch], of ?t] obtain ds' cs' where
    r: "callback_each ?t ?w (deferreds s, timeouts s) = Inr (ds', cs')"
    and l: "length ds' = length (deferreds s)" "length cs' = length (timeouts s)"
    and same: "\<forall>d < length (deferreds s). d \<notin> set ?w \<longrightarrow> ds' ! d = deferreds s ! d"
    and canc: "\<forall>d < length (deferreds s). d_cancels (ds' ! d) = d_cancels (deferreds s ! d)"
    and keep: "\<forall>c < length (timeouts s).
        (\<forall>d \<in> set ?w. d_cancels (deferreds s ! d) \<noteq> Some c) \<longrightarrow> cs' ! c = timeouts s ! c"
    by blast
  let ?stack = "if topic_stack s ?ch = [] \<or> ?t \<noteq> last (topic_stack s ?ch)
                then (topic_stack s)(?ch := deque_append (topic_stack s ?ch) ?t)
                else topic_stack s"
  let ?ws = "(topic_waiters s)(?ch := [])"
  let ?s' = "s\<lparr>topic_stack := ?stack, topic_waiters := ?ws, deferreds := ds', timeouts := cs'\<rparr>"
  have res: "on_event_irc_on_topic_updated event s = Inr ?s'"
  proof (cases "topic_stack s ?ch = [] \<or> ?t \<noteq> last (topic_stack s ?ch)")
    case True
    with r show ?thesis by (auto simp: on_event_irc_on_topic_updated_def Let_def)
  next
    case False
    then have e: "?t = last (topic_stack s ?ch)" and n: "topic_stack s ?ch \<noteq> []" by auto
    have "?stack = topic_stack s" using False by simp
    moreover have "s\<lparr>topic_stack := topic_stack s\<rparr> = s" by simp
    ultimately show ?thesis
      using r n e[symmetric] by (simp add: on_event_irc_on_topic_updated_def Let_def)
  qed
  have mem: "a \<noteq> ?ch \<and> d \<in> set (topic_waiters s a)" if "d \<in> set (?ws a)" for d a
    using that by (cases "a = ?ch") auto
  have lt: "d < length (deferreds s)" if "d \<in> set (topic_waiters s a)" for d a
    using waiting_ok_state[OF topic_ok_waiting[OF ok] that] by simp
  have other: "d \<notin> set ?w" if "a \<noteq> ?ch" "d \<in> set (topic_waiters s a)" for d a
    using topic_ok_one_channel[OF ok that(2), of ?ch] that(1) by blast
  have 1: "waiting_ok (?ws a) ds' cs'" for a
  proof (cases "a = ?ch")
    case True
    then show ?thesis by (simp add: waiting_ok_def)
  next
    case False
    have "waiting_ok (topic_waiters s a) ds' cs'"
    proof (rule waiting_ok_same[OF topic_ok_waiting[OF ok, of a]])
      show "length (deferreds s) \<le> length ds'" using l by simp
    next
      fix d assume m: "d \<in> set (topic_waiters s a)"
      from same lt[OF m] other[OF False m] show "ds' ! d = deferreds s ! d" by blast
    next
      fix d c assume m: "d \<in> set (topic_waiters s a)"
        and k: "d_cancels (deferreds s ! d) = Some c"
      from waiting_ok_cancels[OF topic_ok_waiting[OF ok] m k]
      have p: "c < length (timeouts s)" "snd (timeouts s ! c) = Pending" by simp_all
      have "\<forall>d0 \<in> set ?w. d_cancels (deferreds s ! d0) \<noteq> Some c"
      proof
        fix d0 assume m0: "d0 \<in> set ?w"
        show "d_cancels (deferreds s ! d0) \<noteq> Some c"
        proof
          assume "d_cancels (deferreds s ! d0) = Some c"
          from topic_ok_one_waiter[OF ok m0 m this k] have "d0 = d" .
          with m0 other[OF False m] show False by simp
        qed
      qed
      with keep p(1) have "cs' ! c = timeouts s ! c" by blast
      with p l show "c < length cs' \<and> snd (cs' ! c) = Pending" by simp
    qed
    with False show ?thesis by simp
  qed
  have 2: "a = b" if "d \<in> set (?ws a)" "d \<in> set (?ws b)" for a b d
    using mem[OF that(1)] mem[OF that(2)] topic_ok_one_channel[OF ok, of d a b] by blast
  have 3: "d = d'"
    if "d \<in> set (?ws a)" "d' \<in> set (?ws b)" "d_cancels (ds' ! d) = Some c"
      "d_cancels (ds' ! d') = Some c" for a b d d' c
  proof -
    from mem[OF that(1)] have m: "d \<in> set (topic_waiters s a)" by simp
    from mem[OF that(2)] have m': "d' \<in> set (topic_waiters s b)" by simp
    from canc lt[OF m] that(3) have k: "d_cancels (deferreds s ! d) = Some c" by simp
    from canc lt[OF m'] that(4) have k': "d_cancels (deferreds s ! d') = Some c" by simp
    from topic_ok_one_waiter[OF ok m m' k k'] show ?thesis .
  qed
  have "topic_ok ?s'"
    unfolding topic_ok_def
  proof (intro conjI allI impI)
    fix a show "waiting_ok (topic_waiters ?s' a) (deferreds ?s') (timeouts ?s')"
      using 1[of a] by simp
  next
    fix a b d
    assume "d \<in> set (topic_waiters ?s' a) \<and> d \<in> set (topic_waiters ?s' b)"
    then have "d \<in> set (?ws a)" "d \<in> set (?ws b)" by simp_all
    then show "a = b" by (rule 2)
  next
    fix a b d d' c
    assume "d \<in> set (topic_waiters ?s' a) \<and> d' \<in> set (topic_waiters ?s' b) \<and>
        d_cancels (deferreds ?s' ! d) = Some c \<and> d_cancels (deferreds ?s' ! d') = Some c"
    then have "d \<in> set (?ws a)" "d' \<in> set (?ws b)" "d_cancels (ds' ! d) = Some c"
      "d_cancels (ds' ! d') = Some c" by simp_all
    then show "d = d'" by (rule 3)
  qed
  with res show ?thesis by blast
qed

lemma topic_start_ok: "topic_ok topic_start"
  by (simp add: topic_ok_def topic_start_def waiting_ok_def)

lemma topic_run_ok:
  "topic_ok s \<Longrightarrow> \<exists>s'. topic_run xs s = Inr s' \<and> topic_ok s'"
proof (induction xs arbitrary: s)
  case Nil
  then show ?case by simp
next
  case (Cons x xs)
  have "\<exists>s1. topic_step x s = Inr s1 \<and> topic_ok s1"
  proof (cases x)
    case (Ask channel)
    with ask_keeps_topic_ok[OF Cons.prems, of channel] show ?thesis by simp
  next
    case (Updated event)
    with updated_keeps_topic_ok[OF Cons.prems, of event] show ?thesis by simp
  qed
  then obtain s1 where 1: "topic_step x s = Inr s1" and 2: "topic_ok s1" by blast
  from Cons.IH[OF 2] 1 show ?case by simp
qed

lemma reachable_waiters_ok:
  "\<exists>s. topic_run xs topic_start = Inr s \<and>
       (\<forall>channel. waiting_ok (topic_waiters s channel) (deferreds s) (timeouts s))"
  using topic_run_ok[OF topic_start_ok, of xs] topic_ok_waiting by blast

end
